theory Spec2Isabelle
  imports Main "HOL-Library.Word"
begin

unbundle bit_operations_syntax

section \<open>Machine arithmetic shared by all components\<close>

text \<open>
  The sources compute with C/C++ \<open>int\<close>.  Board sizes are at most a few dozen tiles, so
  no computation below leaves the 32-bit range and \<open>int\<close> is modelled by HOL's \<open>int\<close>;
  what does differ from HOL is division, which in C and C++ truncates towards zero.
\<close>

definition tdiv :: "int \<Rightarrow> int \<Rightarrow> int" where
  "tdiv a b = sgn a * sgn b * (\<bar>a\<bar> div \<bar>b\<bar>)"

definition tmod :: "int \<Rightarrow> int \<Rightarrow> int" where
  "tmod a b = a - b * tdiv a b"

text \<open>
  The C++ solvers keep the tile grid in \<open>int16_t\<close> elements and the C solver in \<open>int8_t\<close>
  elements.  \<open>int16 v\<close> is the value read back after \<open>static_cast<int16_t>(v)\<close>, or after
  storing the \<open>int\<close> \<open>v\<close> into such an element: \<open>v\<close> reduced modulo \<open>2^16\<close> into
  \<open>-32768 .. 32767\<close>; \<open>int8\<close> likewise into \<open>-128 .. 127\<close>.
\<close>

definition int16 :: "int \<Rightarrow> int" where
  "int16 v = (v + 32768) mod 65536 - 32768"

definition int8 :: "int \<Rightarrow> int" where
  "int8 v = (v + 128) mod 256 - 128"

section \<open>Solver: puzzle, Game-ID decoding (seq\_solver.cpp, seq\_solver\_dfs.cpp)\<close>

record Dot =
  dot_x :: int
  dot_y :: int
  is_black :: bool

record Puzzle =
  width :: int
  height :: int
  internalWidth :: int
  internalHeight :: int
  dots :: "Dot list"

text \<open>\<open>std::string::find(c)\<close>: index of the first occurrence, \<open>npos\<close> as \<open>None\<close>.\<close>

fun find_char :: "char \<Rightarrow> string \<Rightarrow> nat option" where
  "find_char c [] = None"
| "find_char c (a # as) =
     (if a = c then Some 0
      else (case find_char c as of None \<Rightarrow> None | Some i \<Rightarrow> Some (Suc i)))"

definition is_digit :: "char \<Rightarrow> bool" where
  "is_digit c = (48 \<le> (of_char c :: nat) \<and> (of_char c :: nat) \<le> 57)"

definition is_space :: "char \<Rightarrow> bool" where
  "is_space c = ((of_char c :: nat) = 32 \<or> (9 \<le> (of_char c :: nat) \<and> (of_char c :: nat) \<le> 13))"

fun digits_value :: "nat \<Rightarrow> string \<Rightarrow> nat" where
  "digits_value acc [] = acc"
| "digits_value acc (c # cs) =
     (if is_digit c then digits_value (acc * 10 + ((of_char c :: nat) - 48)) cs else acc)"

text \<open>
  \<open>std::stoi\<close>: skip leading white space, read an optional sign and the longest run of
  decimal digits; no digit at all throws \<open>invalid_argument\<close>, a value outside the
  32-bit range throws \<open>out_of_range\<close>.  Both exceptions are caught by \<open>fromGameId\<close>
  and are the value \<open>None\<close> here.  Characters after the digits are ignored.
\<close>

definition stoi_unsigned :: "bool \<Rightarrow> string \<Rightarrow> int option" where
  "stoi_unsigned neg s =
     (case s of
        [] \<Rightarrow> None
      | c # cs \<Rightarrow>
          if \<not> is_digit c then None
          else (let v = (if neg then - int (digits_value 0 s) else int (digits_value 0 s))
                in if v < - 2147483648 \<or> 2147483647 < v then None else Some v))"

definition stoi :: "string \<Rightarrow> int option" where
  "stoi s =
     (case dropWhile is_space s of
        [] \<Rightarrow> None
      | c # cs \<Rightarrow>
          if c = CHR ''-'' then stoi_unsigned True cs
          else if c = CHR ''+'' then stoi_unsigned False cs
          else stoi_unsigned False (c # cs))"

text \<open>
  The decoding loop of \<open>fromGameId\<close> (and of \<open>parse_game_id\<close> in the C solvers, which
  is the same loop): \<open>pos\<close> walks the internal grid in row-major order.
\<close>

fun decode_data :: "int \<Rightarrow> string \<Rightarrow> int \<Rightarrow> Dot list \<Rightarrow> Dot list" where
  "decode_data sx [] pos ds = ds"
| "decode_data sx (c # cs) pos ds =
     (if c = CHR ''M'' then
        decode_data sx cs (pos + 1)
          (ds @ [\<lparr>dot_x = tmod pos sx, dot_y = tdiv pos sx, is_black = False\<rparr>])
      else if c = CHR ''B'' then
        decode_data sx cs (pos + 1)
          (ds @ [\<lparr>dot_x = tmod pos sx, dot_y = tdiv pos sx, is_black = True\<rparr>])
      else if 97 \<le> (of_char c :: nat) \<and> (of_char c :: nat) \<le> 122 then
        decode_data sx cs (pos + (int (of_char c :: nat) - 97 + 1)) ds
      else decode_data sx cs pos ds)"

definition fromGameId :: "string \<Rightarrow> Puzzle option" where
  "fromGameId game_id =
     (case find_char CHR '':'' game_id of
        None \<Rightarrow> None
      | Some colon \<Rightarrow>
         (case find_char CHR ''x'' game_id of
            None \<Rightarrow> None
          | Some xpos \<Rightarrow>
              if xpos > colon then None
              else (case stoi (take xpos game_id) of
                      None \<Rightarrow> None
                    | Some w \<Rightarrow>
                       (case stoi (take (colon - (xpos + 1)) (drop (xpos + 1) game_id)) of
                          None \<Rightarrow> None
                        | Some h \<Rightarrow>
                            Some \<lparr>width = w, height = h,
                                  internalWidth = 2 * w + 1, internalHeight = 2 * h + 1,
                                  dots = decode_data (2 * w + 1) (drop (colon + 1) game_id) 0 []\<rparr>))))"

definition dot_positions :: "Puzzle option \<Rightarrow> (int \<times> int \<times> bool) list" where
  "dot_positions po =
     (case po of None \<Rightarrow> []
      | Some p \<Rightarrow> map (\<lambda>d. (dot_x d, dot_y d, is_black d)) (dots p))"

section \<open>Solver: state, seeding and bounds (seq\_solver.cpp, seq\_solver\_dfs.cpp)\<close>

text \<open>
  The solver state: the tile grid \<open>[h][w]\<close> of dot indices (\<open>-1\<close> for unfilled), each the
  value of an \<open>int16_t\<close> element, the count of filled tiles and the 64-bit Zobrist hash.  The Zobrist table is filled from a random
  device, so it is a parameter \<open>z\<close> of every operation that reads it: \<open>z ! cell ! dot\<close>.
\<close>

record State =
  grid :: "int list list"
  filledCount :: int
  hash :: "64 word"

type_synonym zobrist = "64 word list list"

definition initial_state :: "Puzzle \<Rightarrow> State" where
  "initial_state p =
     \<lparr>grid = replicate (nat (height p)) (replicate (nat (width p)) (- 1)),
      filledCount = 0, hash = 0\<rparr>"

definition at :: "State \<Rightarrow> int \<Rightarrow> int \<Rightarrow> int" where
  "at s tx ty = grid s ! nat ty ! nat tx"

text \<open>Every store into the grid converts the \<open>int\<close> to \<open>int16_t\<close>.\<close>

definition set_at :: "State \<Rightarrow> int \<Rightarrow> int \<Rightarrow> int \<Rightarrow> State" where
  "set_at s tx ty d = s\<lparr>grid := (grid s)[nat ty := (grid s ! nat ty)[nat tx := int16 d]]\<rparr>"

definition zob :: "Puzzle \<Rightarrow> zobrist \<Rightarrow> int \<Rightarrow> int \<Rightarrow> int \<Rightarrow> 64 word" where
  "zob p z tx ty d = z ! nat (ty * width p + tx) ! nat d"

definition inTileBounds :: "Puzzle \<Rightarrow> int \<Rightarrow> int \<Rightarrow> bool" where
  "inTileBounds p tx ty = (tx \<ge> 0 \<and> tx < width p \<and> ty \<ge> 0 \<and> ty < height p)"

definition isValidTile :: "Puzzle \<Rightarrow> State \<Rightarrow> int \<Rightarrow> int \<Rightarrow> bool" where
  "isValidTile p s tx ty = (if \<not> inTileBounds p tx ty then False else at s tx ty = - 1)"

definition getSymmetricTile :: "int \<Rightarrow> int \<Rightarrow> int \<Rightarrow> int \<Rightarrow> int \<times> int" where
  "getSymmetricTile dotx' doty' tx ty =
     (let cx = tx * 2 + 1; cy = ty * 2 + 1;
          rx = 2 * dotx' - cx; ry = 2 * doty' - cy
      in (tdiv (rx - 1) 2, tdiv (ry - 1) 2))"

text \<open>
  \<open>tryFill\<close> returns its \<open>bool\<close> together with the state it leaves behind; a tile outside
  the board is ignored and reported as success.
\<close>

definition tryFill :: "Puzzle \<Rightarrow> zobrist \<Rightarrow> State \<Rightarrow> int \<Rightarrow> int \<Rightarrow> int \<Rightarrow> bool \<times> State" where
  "tryFill p z s tx ty d =
     (if \<not> inTileBounds p tx ty then (True, s)
      else (let cur = at s tx ty in
            if cur = - 1 then
              (True, (set_at s tx ty d)\<lparr>hash := hash s XOR zob p z tx ty d,
                                         filledCount := filledCount s + 1\<rparr>)
            else (cur = d, s)))"

text \<open>\<open>!tryFill(a) || !tryFill(b)\<close>: the second fill runs only when the first succeeded.\<close>

definition fill_then :: "bool \<times> State \<Rightarrow> (State \<Rightarrow> bool \<times> State) \<Rightarrow> bool \<times> State" where
  "fill_then r f = (if fst r then f (snd r) else r)"

definition seed_dot :: "Puzzle \<Rightarrow> zobrist \<Rightarrow> State \<Rightarrow> nat \<Rightarrow> bool \<times> State" where
  "seed_dot p z s d =
     (let dx = dot_x (dots p ! d); dy = dot_y (dots p ! d);
          oddx = (tmod dx 2 \<noteq> 0); oddy = (tmod dy 2 \<noteq> 0)
      in if oddx \<and> oddy then
           tryFill p z s (tdiv (dx - 1) 2) (tdiv (dy - 1) 2) (int d)
         else if oddx \<and> \<not> oddy then
           (let tx = tdiv (dx - 1) 2; ty1 = tdiv dy 2 - 1; ty2 = tdiv dy 2
            in fill_then (tryFill p z s tx ty1 (int d)) (\<lambda>s. tryFill p z s tx ty2 (int d)))
         else if \<not> oddx \<and> oddy then
           (let ty = tdiv (dy - 1) 2; tx1 = tdiv dx 2 - 1; tx2 = tdiv dx 2
            in fill_then (tryFill p z s tx1 ty (int d)) (\<lambda>s. tryFill p z s tx2 ty (int d)))
         else
           (let tx1 = tdiv dx 2 - 1; tx2 = tdiv dx 2; ty1 = tdiv dy 2 - 1; ty2 = tdiv dy 2
            in fill_then (fill_then (fill_then (tryFill p z s tx1 ty1 (int d))
                 (\<lambda>s. tryFill p z s tx1 ty2 (int d)))
                 (\<lambda>s. tryFill p z s tx2 ty1 (int d)))
                 (\<lambda>s. tryFill p z s tx2 ty2 (int d))))"

text \<open>The loop \<open>for d = 0 .. dotCount-1\<close> of \<open>seedForcedTiles\<close>, over the remaining indices.\<close>

fun seed_from :: "Puzzle \<Rightarrow> zobrist \<Rightarrow> nat list \<Rightarrow> State \<Rightarrow> bool \<times> State" where
  "seed_from p z [] s = (True, s)"
| "seed_from p z (d # ds) s =
     (let r = seed_dot p z s d in if fst r then seed_from p z ds (snd r) else (False, snd r))"

definition seedForcedTiles :: "Puzzle \<Rightarrow> zobrist \<Rightarrow> State \<Rightarrow> bool \<times> State" where
  "seedForcedTiles p z s = seed_from p z [0..<length (dots p)] s"

section \<open>Solver: breadth-first search (seq\_solver.cpp)\<close>

definition dirs :: "(int \<times> int) list" where
  "dirs = [(1, 0), (- 1, 0), (0, 1), (0, - 1)]"

text \<open>The tile coordinates in the order of the loops \<open>for y .. for x ..\<close>.\<close>

definition tiles :: "Puzzle \<Rightarrow> (int \<times> int) list" where
  "tiles p = concat (map (\<lambda>y. map (\<lambda>x. (int x, int y)) [0..<nat (width p)]) [0..<nat (height p)])"

definition mark_used :: "bool list \<Rightarrow> int \<Rightarrow> bool list" where
  "mark_used used v = (if v \<ge> 0 \<and> v < int (length used) then used[nat v := True] else used)"

definition allDotsUsed :: "Puzzle \<Rightarrow> State \<Rightarrow> bool" where
  "allDotsUsed p s =
     list_all (\<lambda>c. c)
       (foldl mark_used (replicate (length (dots p)) False)
          (map (\<lambda>(x, y). at s x y) (tiles p)))"

definition fill :: "Puzzle \<Rightarrow> zobrist \<Rightarrow> State \<Rightarrow> int \<Rightarrow> int \<Rightarrow> int \<Rightarrow> State" where
  "fill p z s tx ty d =
     (set_at s tx ty d)\<lparr>hash := hash s XOR zob p z tx ty d, filledCount := filledCount s + 1\<rparr>"

text \<open>
  The body of the innermost loop of \<open>Solver::solve\<close> for an assigned tile \<open>(x, y)\<close> and a
  direction: the successor state, or \<open>None\<close> where the code \<open>continue\<close>s.
\<close>

definition bfs_successor ::
  "Puzzle \<Rightarrow> zobrist \<Rightarrow> State \<Rightarrow> int \<Rightarrow> int \<Rightarrow> int \<times> int \<Rightarrow> State option" where
  "bfs_successor p z s x y dir =
     (let d = at s x y;
          dx = dot_x (dots p ! nat d); dy = dot_y (dots p ! nat d);
          nx = x + fst dir; ny = y + snd dir
      in if \<not> isValidTile p s nx ny then None
         else (let sx = fst (getSymmetricTile dx dy nx ny);
                   sy = snd (getSymmetricTile dx dy nx ny)
               in if isValidTile p s sx sy \<or> (nx = sx \<and> ny = sy) then
                    (let next = fill p z s nx ny d
                     in if nx \<noteq> sx \<or> ny \<noteq> sy then
                          (if at next sx sy = - 1 then Some (fill p z next sx sy d) else None)
                        else Some next)
                  else None))"

fun bfs_expand ::
  "Puzzle \<Rightarrow> zobrist \<Rightarrow> State \<Rightarrow> ((int \<times> int) \<times> (int \<times> int)) list \<Rightarrow>
   State list \<times> 64 word set \<Rightarrow> State list \<times> 64 word set" where
  "bfs_expand p z s [] qv = qv"
| "bfs_expand p z s (((x, y), dir) # cs) (q, v) =
     (if at s x y \<noteq> - 1 then
        (case bfs_successor p z s x y dir of
           None \<Rightarrow> bfs_expand p z s cs (q, v)
         | Some next \<Rightarrow>
             if hash next \<notin> v then bfs_expand p z s cs (q @ [next], insert (hash next) v)
             else bfs_expand p z s cs (q, v))
      else bfs_expand p z s cs (q, v))"

datatype outcome = OutOfFuel | NoSolution | Solved State

text \<open>
  The \<open>while (!q.empty())\<close> loop.  The queue can only be shown to drain by an argument over
  the visited set, so the loop carries fuel: one unit per popped state.
\<close>

fun bfs :: "Puzzle \<Rightarrow> zobrist \<Rightarrow> nat \<Rightarrow> State list \<Rightarrow> 64 word set \<Rightarrow> outcome" where
  "bfs p z n [] v = NoSolution"
| "bfs p z 0 (s # q) v = OutOfFuel"
| "bfs p z (Suc n) (s # q) v =
     (if filledCount s = width p * height p then
        (if allDotsUsed p s then Solved s else bfs p z n q v)
      else (let qv = bfs_expand p z s (List.product (tiles p) dirs) (q, v)
            in bfs p z n (fst qv) (snd qv)))"

definition solve :: "Puzzle \<Rightarrow> zobrist \<Rightarrow> nat \<Rightarrow> outcome" where
  "solve p z fuel =
     (let r = seedForcedTiles p z (initial_state p)
      in if \<not> fst r then NoSolution
         else bfs p z fuel [snd r] {hash (snd r)})"

section \<open>The 16-bit grid elements\<close>

lemma int16_sint: "int16 v = sint (word_of_int v :: 16 word)"
  by (simp add: int16_def int_word_sint)

lemma int16_fits: "- 32768 \<le> v \<Longrightarrow> v < 32768 \<Longrightarrow> int16 v = v"
  by (simp add: int16_def)

lemma int16_range: "- 32768 \<le> int16 v \<and> int16 v < 32768"
proof -
  have "0 \<le> (v + 32768) mod 65536" "(v + 32768) mod 65536 < 65536" by simp_all
  then show ?thesis unfolding int16_def by linarith
qed

lemma int16_idem [simp]: "int16 (int16 v) = int16 v"
  using int16_range [of v] by (simp add: int16_fits)

lemma int16_small [simp]: "int16 0 = 0" "int16 (- 1) = - 1" "int16 1 = 1"
  by (simp_all add: int16_def)

lemma int16_index: "k < 32768 \<Longrightarrow> int16 (int k) = int k"
  by (simp add: int16_fits)

section \<open>Seeding skips tiles outside the board\<close>

text \<open>
  C3, as the spec has it: a dot whose forced tiles include a position outside the board
  makes the solver reject the puzzle.  The code does the opposite on purpose (\<open>tryFill\<close>:
  "out-of-bounds is ignored"): on the 1x1 board with a single dot on the corner vertex
  \<open>(0,0)\<close>, three of the four forced tiles are outside the board, seeding succeeds and the
  search returns a solution.
\<close>

definition corner_puzzle :: Puzzle where
  "corner_puzzle =
     \<lparr>width = 1, height = 1, internalWidth = 3, internalHeight = 3,
      dots = [\<lparr>dot_x = 0, dot_y = 0, is_black = False\<rparr>]\<rparr>"

lemma tdiv_simps [simp]:
  "tdiv 0 2 = 0" "tdiv (- 1) 2 = 0" "tdiv (- 2) 2 = - 1" "tmod 0 2 = 0"
  by (simp_all add: tdiv_def tmod_def)

theorem corner_dot_not_rejected_counterexample:
  "\<not> inTileBounds corner_puzzle (- 1) (- 1) \<and>
   fst (seedForcedTiles corner_puzzle [[7]] (initial_state corner_puzzle)) \<and>
   solve corner_puzzle [[7]] 1 = Solved \<lparr>grid = [[0]], filledCount = 1, hash = 7\<rparr>"
  by (simp add: corner_puzzle_def seedForcedTiles_def seed_dot_def fill_then_def tryFill_def
      inTileBounds_def initial_state_def at_def set_at_def zob_def solve_def allDotsUsed_def
      tiles_def mark_used_def Let_def)

text \<open>
  C3, amended: a forced tile outside the W x H board is skipped by seeding: \<open>tryFill\<close>
  reports success for it and leaves grid, hash and filled count as they were, so a dot on
  the border or a corner of the internal grid is never by itself a reason to reject.
\<close>

theorem tryFill_out_of_bounds:
  "\<not> inTileBounds p tx ty \<Longrightarrow> tryFill p z s tx ty d = (True, s)"
  by (simp add: tryFill_def)

theorem tryFill_out_of_bounds_witness:
  "\<not> inTileBounds corner_puzzle (- 1) 0 \<and>
   tryFill corner_puzzle [] (initial_state corner_puzzle) (- 1) 0 0
     = (True, initial_state corner_puzzle)"
  using tryFill_out_of_bounds [of corner_puzzle "- 1" 0 "[]" "initial_state corner_puzzle" 0]
  by (simp add: inTileBounds_def corner_puzzle_def)

section \<open>The scenario 1x1:Ma\<close>

text \<open>
  C5, as the spec has it: decoding \<open>1x1:Ma\<close> gives one white dot at internal \<open>(1,1)\<close>.
  The decoder starts at position 0 of the internal grid, so the dot is at \<open>(0,0)\<close>.
\<close>

theorem decode_1x1_Ma_counterexample:
  "dot_positions (fromGameId ''1x1:Ma'') \<noteq> [(1, 1, False)]"
  by (simp add: dot_positions_def fromGameId_def stoi_def stoi_unsigned_def is_digit_def
      is_space_def tdiv_def tmod_def)

text \<open>
  C5, amended: decoding \<open>1x1:Ma\<close> yields exactly one white dot, at internal coordinates
  \<open>(0,0)\<close> (the corner vertex), and the breadth-first solver accepts the puzzle as soon as
  it pops the seeded state: the single tile is owned by dot 0.
\<close>

theorem decode_1x1_Ma_solved:
  "fromGameId ''1x1:Ma'' = Some corner_puzzle \<and>
   dot_positions (fromGameId ''1x1:Ma'') = [(0, 0, False)] \<and>
   solve corner_puzzle z (Suc n) =
     Solved \<lparr>grid = [[0]], filledCount = 1, hash = 0 XOR z ! 0 ! 0\<rparr>"
  by (simp add: dot_positions_def fromGameId_def stoi_def stoi_unsigned_def is_digit_def
      is_space_def tdiv_def tmod_def
      corner_puzzle_def seedForcedTiles_def seed_dot_def fill_then_def tryFill_def
      inTileBounds_def initial_state_def at_def set_at_def zob_def solve_def allDotsUsed_def
      tiles_def mark_used_def Let_def)

section \<open>Solver: grid access, tiles and the Zobrist hash of a grid\<close>

lemma tdiv_even: "even a \<Longrightarrow> tdiv a 2 = a div 2"
  by (auto simp: tdiv_def sgn_if elim!: evenE)

lemma tmod_odd: "(tmod a 2 \<noteq> 0) = odd a"
  unfolding tmod_def tdiv_def by (cases "a < 0"; cases "a = 0"; simp add: sgn_if; presburger)


text \<open>
  A grid of the board's size whose elements are \<open>int16_t\<close> values.
\<close>

definition wf_state :: "Puzzle \<Rightarrow> State \<Rightarrow> bool" where
  "wf_state p s =
     (length (grid s) = nat (height p) \<and>
      (\<forall>row\<in>set (grid s). length row = nat (width p) \<and> (\<forall>v\<in>set row. int16 v = v)))"

lemma wf_initial: "wf_state p (initial_state p)"
  by (simp add: wf_state_def initial_state_def)

lemma wf_row_update:
  assumes "length row = n \<and> (\<forall>v\<in>set row. int16 v = v)"
  shows "length (row[i := int16 d]) = n \<and> (\<forall>v\<in>set (row[i := int16 d]). int16 v = v)"
proof (intro conjI ballI)
  show "length (row[i := int16 d]) = n" using assms by simp
next
  fix v assume "v \<in> set (row[i := int16 d])"
  then have "v = int16 d \<or> v \<in> set row"
    using set_update_subset_insert [of row i "int16 d"] by auto
  then show "int16 v = v" using assms by auto
qed

lemma wf_set_at: "wf_state p s \<Longrightarrow> wf_state p (set_at s tx ty d)"
proof (cases "nat ty < length (grid s)")
  case True
  assume wf: "wf_state p s"
  let ?row = "(grid s ! nat ty)[nat tx := int16 d]"
  from True have "grid s ! nat ty \<in> set (grid s)" by simp
  with wf have old: "length (grid s ! nat ty) = nat (width p) \<and> (\<forall>v\<in>set (grid s ! nat ty). int16 v = v)"
    unfolding wf_state_def by blast
  have new: "length ?row = nat (width p) \<and> (\<forall>v\<in>set ?row. int16 v = v)"
    using old by (rule wf_row_update)
  show ?thesis
    unfolding wf_state_def
  proof
    show "length (grid (set_at s tx ty d)) = nat (height p)"
      using wf by (simp add: set_at_def wf_state_def)
  next
    show "\<forall>row\<in>set (grid (set_at s tx ty d)).
            length row = nat (width p) \<and> (\<forall>v\<in>set row. int16 v = v)"
    proof
      fix row assume "row \<in> set (grid (set_at s tx ty d))"
      then have "row = ?row \<or> row \<in> set (grid s)"
        using set_update_subset_insert [of "grid s" "nat ty" ?row] by (auto simp: set_at_def)
      then show "length row = nat (width p) \<and> (\<forall>v\<in>set row. int16 v = v)"
        using new wf unfolding wf_state_def by blast
    qed
  qed
next
  case False
  then have "(grid s)[nat ty := r] = grid s" for r
    by (simp add: list_update_beyond)
  moreover assume "wf_state p s"
  ultimately show ?thesis
    unfolding wf_state_def set_at_def by simp
qed

lemma at_set_at:
  "wf_state p s \<Longrightarrow> inTileBounds p tx ty \<Longrightarrow> inTileBounds p x y \<Longrightarrow>
   at (set_at s tx ty d) x y = (if x = tx \<and> y = ty then int16 d else at s x y)"
  unfolding wf_state_def set_at_def at_def inTileBounds_def
  by (auto simp: nth_list_update)





definition xor_all :: "64 word list \<Rightarrow> 64 word" where
  "xor_all ws = foldr (XOR) ws 0"

definition zobrist_hash :: "Puzzle \<Rightarrow> zobrist \<Rightarrow> State \<Rightarrow> 64 word" where
  "zobrist_hash p z s =
     xor_all (map (\<lambda>(x, y). zob p z x y (at s x y))
                  (filter (\<lambda>(x, y). at s x y \<noteq> - 1) (tiles p)))"








lemma at_upd_more [simp]:
  "at (s\<lparr>hash := a\<rparr>) x y = at s x y" "at (s\<lparr>filledCount := b\<rparr>) x y = at s x y"
  by (simp_all add: at_def)

lemma zobrist_hash_more [simp]:
  "zobrist_hash p z (s\<lparr>hash := a\<rparr>) = zobrist_hash p z s"
  "zobrist_hash p z (s\<lparr>filledCount := b\<rparr>) = zobrist_hash p z s"
  by (simp_all add: zobrist_hash_def)

lemma wf_more [simp]:
  "wf_state p (s\<lparr>hash := a\<rparr>) = wf_state p s" "wf_state p (s\<lparr>filledCount := b\<rparr>) = wf_state p s"
  by (simp_all add: wf_state_def)


section \<open>Solver: moves and their enumeration (seq\_solver\_dfs.cpp, openmp\_solver\_dfs.cpp)\<close>

text \<open>
  The depth-first solvers keep grid, filled count and hash as members of \<open>Solver\<close>; they are
  the record \<open>State\<close> here.  \<open>dfs_moves\<close> is the enumeration inside \<open>Solver::dfs\<close> of
  seq\_solver\_dfs.cpp, \<open>generateMoves\<close> the one of openmp\_solver\_dfs.cpp.
\<close>

record Move =
  m_tx :: int
  m_ty :: int
  m_d :: int
  m_sx :: int
  m_sy :: int
  symmetric_was_empty :: bool

definition unfill :: "Puzzle \<Rightarrow> zobrist \<Rightarrow> State \<Rightarrow> int \<Rightarrow> int \<Rightarrow> int \<Rightarrow> State" where
  "unfill p z s tx ty d =
     (set_at s tx ty (- 1))\<lparr>hash := hash s XOR zob p z tx ty d, filledCount := filledCount s - 1\<rparr>"

definition applyMove :: "Puzzle \<Rightarrow> zobrist \<Rightarrow> Move \<Rightarrow> State \<Rightarrow> State" where
  "applyMove p z m s =
     (let s1 = fill p z s (m_tx m) (m_ty m) (m_d m)
      in if m_tx m \<noteq> m_sx m \<or> m_ty m \<noteq> m_sy m then
           (if symmetric_was_empty m then fill p z s1 (m_sx m) (m_sy m) (m_d m) else s1)
         else s1)"

definition undoMove :: "Puzzle \<Rightarrow> zobrist \<Rightarrow> Move \<Rightarrow> State \<Rightarrow> State" where
  "undoMove p z m s =
     (let s1 = unfill p z s (m_tx m) (m_ty m) (m_d m)
      in if m_tx m \<noteq> m_sx m \<or> m_ty m \<noteq> m_sy m then
           (if symmetric_was_empty m then unfill p z s1 (m_sx m) (m_sy m) (m_d m) else s1)
         else s1)"

definition already_added :: "Move list \<Rightarrow> int \<Rightarrow> int \<Rightarrow> int \<Rightarrow> bool" where
  "already_added moves x y d = list_ex (\<lambda>m. m_tx m = x \<and> m_ty m = y \<and> m_d m = d) moves"

definition symmetric_of :: "Puzzle \<Rightarrow> int \<Rightarrow> int \<Rightarrow> int \<Rightarrow> int \<times> int" where
  "symmetric_of p d x y =
     getSymmetricTile (dot_x (dots p ! nat d)) (dot_y (dots p ! nat d)) x y"





definition mk_move :: "Puzzle \<Rightarrow> State \<Rightarrow> int \<Rightarrow> int \<Rightarrow> int \<Rightarrow> Move" where
  "mk_move p s x y d =
     \<lparr>m_tx = x, m_ty = y, m_d = d,
      m_sx = fst (symmetric_of p d x y), m_sy = snd (symmetric_of p d x y),
      symmetric_was_empty = (at s (fst (symmetric_of p d x y)) (snd (symmetric_of p d x y)) = - 1)\<rparr>"








lemma not_already_added:
  "\<not> already_added moves x y d \<Longrightarrow> mk_move p s x y d \<notin> set moves"
  unfolding already_added_def list_ex_iff mk_move_def by force


subsection \<open>The moves an enumeration returns\<close>














section \<open>Solver: what seeding assigns\<close>

text \<open>The tiles forced by a dot, in the words of the spec.\<close>

definition forced_tiles :: "Dot \<Rightarrow> (int \<times> int) list" where
  "forced_tiles dt =
     (let dx = dot_x dt; dy = dot_y dt
      in if odd dx \<and> odd dy then [((dx - 1) div 2, (dy - 1) div 2)]
         else if odd dx \<and> even dy then
           [((dx - 1) div 2, dy div 2 - 1), ((dx - 1) div 2, dy div 2)]
         else if even dx \<and> odd dy then
           [(dx div 2 - 1, (dy - 1) div 2), (dx div 2, (dy - 1) div 2)]
         else [(dx div 2 - 1, dy div 2 - 1), (dx div 2 - 1, dy div 2),
               (dx div 2, dy div 2 - 1), (dx div 2, dy div 2)])"

definition fill_seq ::
  "Puzzle \<Rightarrow> zobrist \<Rightarrow> int \<Rightarrow> bool \<times> State \<Rightarrow> (int \<times> int) list \<Rightarrow> bool \<times> State" where
  "fill_seq p z d r ts = foldl (\<lambda>r t. fill_then r (\<lambda>s. tryFill p z s (fst t) (snd t) d)) r ts"

lemma fill_seq_simps [simp]:
  "fill_seq p z d r [] = r"
  "fill_seq p z d r (t # ts) = fill_seq p z d (fill_then r (\<lambda>s. tryFill p z s (fst t) (snd t) d)) ts"
  by (simp_all add: fill_seq_def)

lemma fill_seq_False: "\<not> fst r \<Longrightarrow> fill_seq p z d r ts = r"
  by (induction ts) (simp_all add: fill_then_def)

lemma seed_dot_fill_seq:
  "seed_dot p z s d = fill_seq p z (int d) (True, s) (forced_tiles (dots p ! d))"
  unfolding seed_dot_def forced_tiles_def Let_def tmod_odd
  by (auto simp: tdiv_even fill_then_def)

lemma tryFill_fill:
  "tryFill p z s tx ty d =
     (if \<not> inTileBounds p tx ty then (True, s)
      else if at s tx ty = - 1 then (True, fill p z s tx ty d)
      else (at s tx ty = d, s))"
  by (simp add: tryFill_def fill_def Let_def)

lemma wf_fill: "wf_state p s \<Longrightarrow> wf_state p (fill p z s tx ty d)"
  by (simp add: fill_def wf_set_at)

lemma at_fill:
  "wf_state p s \<Longrightarrow> inTileBounds p tx ty \<Longrightarrow> inTileBounds p x y \<Longrightarrow>
   at (fill p z s tx ty d) x y = (if x = tx \<and> y = ty then int16 d else at s x y)"
  by (simp add: fill_def at_set_at)

lemma fill_seq_Cons:
  "fill_seq p z d (True, s) ((tx, ty) # ts) =
     (if \<not> inTileBounds p tx ty then fill_seq p z d (True, s) ts
      else if at s tx ty = - 1 then fill_seq p z d (True, fill p z s tx ty d) ts
      else if at s tx ty = d then fill_seq p z d (True, s) ts
      else (False, s))"
  by (simp add: fill_then_def tryFill_fill fill_seq_False)

lemma fill_seq_wf:
  "wf_state p s \<Longrightarrow> wf_state p (snd (fill_seq p z d (True, s) ts))"
proof (induction ts arbitrary: s)
  case Nil
  then show ?case by simp
next
  case (Cons t ts)
  obtain tx ty where t: "t = (tx, ty)" by (cases t)
  from Cons.prems have "wf_state p (fill p z s tx ty d)" by (rule wf_fill)
  with Cons.IH Cons.prems show ?case
    unfolding t fill_seq_Cons by simp
qed


lemma fill_seq_fst:
  "int16 d = d \<Longrightarrow> wf_state p s \<Longrightarrow>
     fst (fill_seq p z d (True, s) ts) \<longleftrightarrow>
        (\<forall>t\<in>set ts. inTileBounds p (fst t) (snd t) \<longrightarrow>
            at s (fst t) (snd t) = - 1 \<or> at s (fst t) (snd t) = d)"
proof (induction ts arbitrary: s)
  case Nil
  then show ?case by simp
next
  case (Cons t ts)
  obtain tx ty where t: "t = (tx, ty)" by (cases t)
  let ?s1 = "fill p z s tx ty d"
  let ?Q = "\<lambda>s. \<forall>t\<in>set ts. inTileBounds p (fst t) (snd t) \<longrightarrow>
            at s (fst t) (snd t) = - 1 \<or> at s (fst t) (snd t) = d"
  have wf1: "wf_state p ?s1" using Cons.prems(2) by (rule wf_fill)
  have q1: "?Q ?s1 = ?Q s" if "inTileBounds p tx ty" "at s tx ty = - 1"
    using Cons.prems that by (auto simp: at_fill)
  have ih: "fst (fill_seq p z d (True, s) ts) = ?Q s" using Cons.IH [OF Cons.prems] .
  have ih1: "fst (fill_seq p z d (True, ?s1) ts) = ?Q ?s1" using Cons.IH [OF Cons.prems(1) wf1] .
  show ?case
  proof (cases "inTileBounds p tx ty")
    case False
    then show ?thesis unfolding t fill_seq_Cons using ih by simp
  next
    case inb: True
    show ?thesis
    proof (cases "at s tx ty = - 1")
      case True
      then show ?thesis unfolding t fill_seq_Cons using ih1 q1 inb by simp
    next
      case False
      then show ?thesis unfolding t fill_seq_Cons using ih inb by simp
    qed
  qed
qed

lemma fill_seq_at:
  "int16 d = d \<Longrightarrow> wf_state p s \<Longrightarrow> fst (fill_seq p z d (True, s) ts) \<Longrightarrow> inTileBounds p x y \<Longrightarrow>
   at (snd (fill_seq p z d (True, s) ts)) x y
     = (if (x, y) \<in> set ts \<and> at s x y = - 1 then d else at s x y)"
proof (induction ts arbitrary: s)
  case Nil
  then show ?case by simp
next
  case (Cons t ts)
  obtain tx ty where t: "t = (tx, ty)" by (cases t)
  let ?s1 = "fill p z s tx ty d"
  have wf1: "wf_state p ?s1" using Cons.prems(2) by (rule wf_fill)
  show ?case
  proof (cases "inTileBounds p tx ty")
    case False
    then have e: "fill_seq p z d (True, s) (t # ts) = fill_seq p z d (True, s) ts"
      unfolding t fill_seq_Cons by simp
    have "(x, y) \<noteq> (tx, ty)" using False Cons.prems(4) by auto
    then show ?thesis using Cons.IH [OF Cons.prems(1,2) _ Cons.prems(4)] Cons.prems(3)
      unfolding e by (auto simp: t)
  next
    case inb: True
    show ?thesis
    proof (cases "at s tx ty = - 1")
      case True
      then have e: "fill_seq p z d (True, s) (t # ts) = fill_seq p z d (True, ?s1) ts"
        unfolding t fill_seq_Cons using inb by simp
      have a1: "at ?s1 x y = (if x = tx \<and> y = ty then d else at s x y)"
        using Cons.prems inb by (simp add: at_fill)
      have nd: "d \<noteq> - 1 \<or> d = - 1" by simp
      show ?thesis
        using Cons.IH [OF Cons.prems(1) wf1 _ Cons.prems(4)] Cons.prems(3) a1 True
        unfolding e by (cases "x = tx \<and> y = ty") (auto simp: t)
    next
      case False
      then have d: "at s tx ty = d" and e: "fill_seq p z d (True, s) (t # ts) = fill_seq p z d (True, s) ts"
        using Cons.prems(3) inb unfolding t fill_seq_Cons by (auto split: if_splits)
      show ?thesis using Cons.IH [OF Cons.prems(1,2) _ Cons.prems(4)] Cons.prems(3) d False
        unfolding e by (auto simp: t)
    qed
  qed
qed





definition seeded_upto :: "Puzzle \<Rightarrow> nat \<Rightarrow> State \<Rightarrow> bool" where
  "seeded_upto p k s =
     (wf_state p s \<and>
      (\<forall>x y. inTileBounds p x y \<longrightarrow>
         at s x y = - 1 \<or> (\<exists>e<k. at s x y = int e \<and> (x, y) \<in> set (forced_tiles (dots p ! e)))) \<and>
      (\<forall>e<k. \<forall>t\<in>set (forced_tiles (dots p ! e)).
         inTileBounds p (fst t) (snd t) \<longrightarrow> at s (fst t) (snd t) = int e))"

definition clash_at :: "Puzzle \<Rightarrow> nat \<Rightarrow> bool" where
  "clash_at p d =
     (\<exists>e<d. \<exists>t\<in>set (forced_tiles (dots p ! d)).
        inTileBounds p (fst t) (snd t) \<and> t \<in> set (forced_tiles (dots p ! e)))"

lemma seed_dot_step:
  assumes I: "seeded_upto p k s" and small: "k < 32768"
  shows "(fst (seed_dot p z s k) \<longleftrightarrow> \<not> clash_at p k) \<and>
         (fst (seed_dot p z s k) \<longrightarrow> seeded_upto p (Suc k) (snd (seed_dot p z s k)))"
proof -
  let ?ts = "forced_tiles (dots p ! k)"
  let ?r = "fill_seq p z (int k) (True, s) ?ts"
  have wf: "wf_state p s" using I by (simp add: seeded_upto_def)
  have nk: "int k \<noteq> - 1" by simp
  have fk: "int16 (int k) = int k" using small by (rule int16_index)
  note ch_fst = fill_seq_fst [OF fk wf, of z ?ts]
  note ch_at = fill_seq_at [OF fk wf, of z ?ts]
  have owner: "at s x y \<noteq> int k" if "inTileBounds p x y" for x y
  proof -
    from I that have "at s x y = - 1 \<or> (\<exists>e<k. at s x y = int e)"
      unfolding seeded_upto_def by blast
    then show ?thesis by auto
  qed
  have a: "fst ?r \<longleftrightarrow> \<not> clash_at p k"
  proof
    assume f: "fst ?r"
    show "\<not> clash_at p k"
    proof
      assume "clash_at p k"
      then obtain e t where e: "e < k" "t \<in> set ?ts" "inTileBounds p (fst t) (snd t)"
          "t \<in> set (forced_tiles (dots p ! e))"
        unfolding clash_at_def by blast
      then have "at s (fst t) (snd t) = int e" using I unfolding seeded_upto_def by blast
      moreover have "at s (fst t) (snd t) = - 1 \<or> at s (fst t) (snd t) = int k"
        using ch_fst f e by blast
      ultimately show False using e(1) by auto
    qed
  next
    assume nc: "\<not> clash_at p k"
    have "at s (fst t) (snd t) = - 1"
      if tin: "t \<in> set ?ts" and tb: "inTileBounds p (fst t) (snd t)" for t
    proof (rule ccontr)
      assume "at s (fst t) (snd t) \<noteq> - 1"
      then obtain e where "e < k" "(fst t, snd t) \<in> set (forced_tiles (dots p ! e))"
        using I tb unfolding seeded_upto_def by blast
      with tin tb nc show False unfolding clash_at_def by auto
    qed
    with ch_fst show "fst ?r" by blast
  qed
  have b: "seeded_upto p (Suc k) (snd ?r)" if f: "fst ?r"
  proof -
    have at': "inTileBounds p x y \<Longrightarrow>
        at (snd ?r) x y = (if (x, y) \<in> set ?ts \<and> at s x y = - 1 then int k else at s x y)" for x y
      using ch_at f by blast
    have empty: "at s (fst t) (snd t) = - 1" if "t \<in> set ?ts" "inTileBounds p (fst t) (snd t)" for t
      using ch_fst f that owner by blast
    show ?thesis
      unfolding seeded_upto_def
    proof (intro conjI allI impI ballI)
      show "wf_state p (snd ?r)" using wf by (rule fill_seq_wf)
    next
      fix x y assume inb: "inTileBounds p x y"
      show "at (snd ?r) x y = - 1 \<or>
            (\<exists>e<Suc k. at (snd ?r) x y = int e \<and> (x, y) \<in> set (forced_tiles (dots p ! e)))"
      proof (cases "(x, y) \<in> set ?ts \<and> at s x y = - 1")
        case True
        then show ?thesis using at' [OF inb] by auto
      next
        case False
        then have "at (snd ?r) x y = at s x y" using at' [OF inb] by auto
        then show ?thesis using I inb unfolding seeded_upto_def
          by (metis less_Suc_eq)
      qed
    next
      fix e t assume e: "e < Suc k" "t \<in> set (forced_tiles (dots p ! e))"
        "inTileBounds p (fst t) (snd t)"
      show "at (snd ?r) (fst t) (snd t) = int e"
      proof (cases "e = k")
        case True
        then show ?thesis using at' [OF e(3)] empty [of t] e by simp
      next
        case False
        then have "e < k" using e(1) by simp
        then have "at s (fst t) (snd t) = int e" using I e unfolding seeded_upto_def by blast
        then show ?thesis using at' [OF e(3)] by simp
      qed
    qed
  qed
  show ?thesis unfolding seed_dot_fill_seq using a b by blast
qed

subsection \<open>The seeded state\<close>

lemma at_initial: "inTileBounds p x y \<Longrightarrow> at (initial_state p) x y = - 1"
  by (simp add: at_def initial_state_def inTileBounds_def)

lemma seeded_upto_initial: "seeded_upto p 0 (initial_state p)"
  by (simp add: seeded_upto_def wf_initial at_initial)


lemma seed_from_upt:
  "seeded_upto p k s \<Longrightarrow> k \<le> n \<Longrightarrow> n \<le> 32768 \<Longrightarrow>
   (fst (seed_from p z [k..<n] s) \<longleftrightarrow> (\<forall>d. k \<le> d \<and> d < n \<longrightarrow> \<not> clash_at p d)) \<and>
   (fst (seed_from p z [k..<n] s) \<longrightarrow> seeded_upto p n (snd (seed_from p z [k..<n] s)))"
proof (induction "n - k" arbitrary: k s)
  case 0
  then show ?case by auto
next
  case (Suc m)
  then have kn: "k < n" and m: "m = n - Suc k" and le: "Suc k \<le> n" by auto
  have upt: "[k..<n] = k # [Suc k..<n]" using kn by (rule upt_conv_Cons)
  have "k < 32768" using kn Suc.prems(3) by simp
  note st = seed_dot_step [OF Suc.prems(1) this, of z]
  show ?case
  proof (cases "fst (seed_dot p z s k)")
    case False
    then have "\<not> fst (seed_from p z [k..<n] s)" unfolding upt by (simp add: Let_def)
    moreover have "clash_at p k" using st False by blast
    ultimately show ?thesis using kn by auto
  next
    case True
    then have e: "seed_from p z [k..<n] s = seed_from p z [Suc k..<n] (snd (seed_dot p z s k))"
      unfolding upt by (simp add: Let_def)
    have I: "seeded_upto p (Suc k) (snd (seed_dot p z s k))" using st True by blast
    have nc: "\<not> clash_at p k" using st True by blast
    have "(\<forall>d. k \<le> d \<and> d < n \<longrightarrow> \<not> clash_at p d) \<longleftrightarrow> (\<forall>d. Suc k \<le> d \<and> d < n \<longrightarrow> \<not> clash_at p d)"
      using nc by (metis Suc_leI le_neq_implies_less Suc_leD)
    with Suc.hyps(1) [OF m I le Suc.prems(3)] show ?thesis unfolding e by simp
  qed
qed

definition forced_conflict :: "Puzzle \<Rightarrow> bool" where
  "forced_conflict p = (\<exists>d<length (dots p). clash_at p d)"

lemma seedForcedTiles_char:
  assumes "length (dots p) \<le> 32768"
  shows "(fst (seedForcedTiles p z (initial_state p)) \<longleftrightarrow> \<not> forced_conflict p) \<and>
   (fst (seedForcedTiles p z (initial_state p)) \<longrightarrow>
      seeded_upto p (length (dots p)) (snd (seedForcedTiles p z (initial_state p))))"
  using seed_from_upt [OF seeded_upto_initial _ assms, of p z]
  by (simp add: seedForcedTiles_def forced_conflict_def)





section \<open>Solver: applying and undoing a move\<close>

















section \<open>Solver: the states of a search\<close>

text \<open>
  The states a depth-first search passes through: the seeded state, then any move of the
  enumeration at the current state applied, or the most recently applied move undone.
  The list is the stack of applied moves.
\<close>

inductive search_state ::
  "(State \<Rightarrow> Move list) \<Rightarrow> Puzzle \<Rightarrow> zobrist \<Rightarrow> State \<Rightarrow> Move list \<Rightarrow> bool"
  for gen :: "State \<Rightarrow> Move list" and p :: Puzzle and z :: zobrist where
  seeded: "seedForcedTiles p z (initial_state p) = (True, s) \<Longrightarrow> search_state gen p z s []"
| applied: "search_state gen p z s ms \<Longrightarrow> m \<in> set (gen s) \<Longrightarrow>
            search_state gen p z (applyMove p z m s) (m # ms)"
| undone: "search_state gen p z s (m # ms) \<Longrightarrow> search_state gen p z (undoMove p z m s) ms"

inductive chain ::
  "(State \<Rightarrow> Move list) \<Rightarrow> Puzzle \<Rightarrow> zobrist \<Rightarrow> State \<Rightarrow> Move list \<Rightarrow> bool"
  for gen :: "State \<Rightarrow> Move list" and p :: Puzzle and z :: zobrist where
  chain_seeded: "seedForcedTiles p z (initial_state p) = (True, s) \<Longrightarrow> chain gen p z s []"
| chain_applied: "chain gen p z s ms \<Longrightarrow> m \<in> set (gen s) \<Longrightarrow>
            chain gen p z (applyMove p z m s) (m # ms)"








text \<open>The states the breadth-first search enqueues.\<close>

inductive bfs_state :: "Puzzle \<Rightarrow> zobrist \<Rightarrow> State \<Rightarrow> bool"
  for p :: Puzzle and z :: zobrist where
  bfs_seeded: "seedForcedTiles p z (initial_state p) = (True, s) \<Longrightarrow> bfs_state p z s"
| bfs_succ: "bfs_state p z s \<Longrightarrow> (x, y) \<in> set (tiles p) \<Longrightarrow> dir \<in> set dirs \<Longrightarrow>
             at s x y \<noteq> - 1 \<Longrightarrow> bfs_successor p z s x y dir = Some s' \<Longrightarrow> bfs_state p z s'"








section \<open>Solver: seeding, move enumeration and hash, as claimed\<close>

text \<open>
  The C solver (seq\_solver.c, \<open>solve\<close>) pre-fills differently: only a dot on a tile centre
  gets its tile, on the fixed 20 x 20 array of \<open>int8_t\<close>; dots on edges and vertices are
  left to the search, which starts them from the tiles touching the dot.
\<close>

definition c_initial_state :: State where
  "c_initial_state = \<lparr>grid = replicate 20 (replicate 20 (- 1)), filledCount = 0, hash = 0\<rparr>"

definition c_set_at :: "State \<Rightarrow> int \<Rightarrow> int \<Rightarrow> int \<Rightarrow> State" where
  "c_set_at s tx ty d = s\<lparr>grid := (grid s)[nat ty := (grid s ! nat ty)[nat tx := int8 d]]\<rparr>"

definition c_prefill_dot :: "Puzzle \<Rightarrow> zobrist \<Rightarrow> State \<Rightarrow> nat \<Rightarrow> bool \<times> State" where
  "c_prefill_dot p z s i =
     (let dx = dot_x (dots p ! i); dy = dot_y (dots p ! i)
      in if tmod dx 2 \<noteq> 0 \<and> tmod dy 2 \<noteq> 0 then
           (let tx = tdiv (dx - 1) 2; ty = tdiv (dy - 1) 2
            in if at s tx ty = - 1 then
                 (True, (c_set_at s tx ty (int i))
                          \<lparr>filledCount := filledCount s + 1,
                           hash := hash s XOR zob p z tx ty (int i)\<rparr>)
               else (False, s))
         else (True, s))"

fun c_prefill_from :: "Puzzle \<Rightarrow> zobrist \<Rightarrow> nat list \<Rightarrow> State \<Rightarrow> bool \<times> State" where
  "c_prefill_from p z [] s = (True, s)"
| "c_prefill_from p z (i # is) s =
     (let r = c_prefill_dot p z s i in if fst r then c_prefill_from p z is (snd r) else r)"

definition c_prefill :: "Puzzle \<Rightarrow> zobrist \<Rightarrow> bool \<times> State" where
  "c_prefill p z = c_prefill_from p z [0..<length (dots p)] c_initial_state"

definition edge_puzzle :: Puzzle where
  "edge_puzzle =
     \<lparr>width = 2, height = 1, internalWidth = 5, internalHeight = 3,
      dots = [\<lparr>dot_x = 2, dot_y = 1, is_black = False\<rparr>]\<rparr>"

text \<open>
  C2, as the spec has it: every solver variant pre-assigns all forced tiles of every dot.
  The C solver does not: for the dot on the edge between the two tiles of a 2x1 board the
  tile \<open>(0,0)\<close> is forced and in bounds, and it is still unassigned after the pre-fill.
\<close>

theorem c_solver_prefill_counterexample:
  "(0, 0) \<in> set (forced_tiles (dots edge_puzzle ! 0)) \<and> inTileBounds edge_puzzle 0 0 \<and>
   fst (c_prefill edge_puzzle [[1], [2]]) \<and>
   at (snd (c_prefill edge_puzzle [[1], [2]])) 0 0 = - 1"
  by (simp add: edge_puzzle_def forced_tiles_def inTileBounds_def c_prefill_def
      c_prefill_dot_def c_initial_state_def at_def tmod_def tdiv_def)

text \<open>
  C2, amended to the C++ solvers (seq\_solver.cpp, seq\_solver\_dfs.cpp,
  openmp\_solver\_dfs.cpp share \<open>seedForcedTiles\<close>), for a puzzle whose dot indices fit the
  \<open>int16_t\<close> grid (at most 32768 dots): seeding succeeds exactly when no in-bounds tile is
  forced by two different dots; when it succeeds, every in-bounds tile forced by a dot's
  cell class (one tile for a tile centre, two for an edge, four for a vertex) is assigned
  to that dot; and when a forced tile is already taken by another dot the solver answers
  "no solution" without running the search, whatever the fuel.  The pre-fill of the C
  solver assigns nothing for a dot that is not on a tile centre, in any state.
\<close>

theorem seeding_forced_tiles:
  assumes "length (dots p) \<le> 32768"
  shows "(fst (seedForcedTiles p z (initial_state p)) \<longleftrightarrow> \<not> forced_conflict p) \<and>
   (fst (seedForcedTiles p z (initial_state p)) \<longrightarrow>
      (\<forall>d<length (dots p). \<forall>t\<in>set (forced_tiles (dots p ! d)).
          inTileBounds p (fst t) (snd t) \<longrightarrow>
          at (snd (seedForcedTiles p z (initial_state p))) (fst t) (snd t) = int d)) \<and>
   (forced_conflict p \<longrightarrow> solve p z fuel = NoSolution) \<and>
   (\<forall>i s. \<not> (odd (dot_x (dots p ! i)) \<and> odd (dot_y (dots p ! i))) \<longrightarrow>
      c_prefill_dot p z s i = (True, s))"
proof (intro conjI)
  show "fst (seedForcedTiles p z (initial_state p)) \<longleftrightarrow> \<not> forced_conflict p"
    using seedForcedTiles_char [OF assms, of z] by blast
next
  show "fst (seedForcedTiles p z (initial_state p)) \<longrightarrow>
      (\<forall>d<length (dots p). \<forall>t\<in>set (forced_tiles (dots p ! d)).
          inTileBounds p (fst t) (snd t) \<longrightarrow>
          at (snd (seedForcedTiles p z (initial_state p))) (fst t) (snd t) = int d)"
  proof
    assume "fst (seedForcedTiles p z (initial_state p))"
    then have "seeded_upto p (length (dots p)) (snd (seedForcedTiles p z (initial_state p)))"
      using seedForcedTiles_char [OF assms, of z] by blast
    then show "\<forall>d<length (dots p). \<forall>t\<in>set (forced_tiles (dots p ! d)).
          inTileBounds p (fst t) (snd t) \<longrightarrow>
          at (snd (seedForcedTiles p z (initial_state p))) (fst t) (snd t) = int d"
      unfolding seeded_upto_def by blast
  qed
next
  show "forced_conflict p \<longrightarrow> solve p z fuel = NoSolution"
  proof
    assume "forced_conflict p"
    then have "\<not> fst (seedForcedTiles p z (initial_state p))"
      using seedForcedTiles_char [OF assms, of z] by blast
    then show "solve p z fuel = NoSolution" by (simp add: solve_def Let_def)
  qed
next
  show "\<forall>i s. \<not> (odd (dot_x (dots p ! i)) \<and> odd (dot_y (dots p ! i))) \<longrightarrow>
      c_prefill_dot p z s i = (True, s)"
    unfolding c_prefill_dot_def Let_def tmod_odd by simp
qed

definition strip3 :: Puzzle where
  "strip3 =
     \<lparr>width = 3, height = 1, internalWidth = 7, internalHeight = 3,
      dots = [\<lparr>dot_x = 3, dot_y = 1, is_black = False\<rparr>]\<rparr>"

definition clash_puzzle :: Puzzle where
  "clash_puzzle =
     \<lparr>width = 2, height = 1, internalWidth = 5, internalHeight = 3,
      dots = [\<lparr>dot_x = 2, dot_y = 1, is_black = False\<rparr>,
              \<lparr>dot_x = 1, dot_y = 1, is_black = True\<rparr>]\<rparr>"

lemma strip3_seeded:
  "seedForcedTiles strip3 [[1], [2], [4]] (initial_state strip3)
   = (True, \<lparr>grid = [[- 1, 0, - 1]], filledCount = 1, hash = 2\<rparr>)"
  by code_simp

lemma clash_puzzle_conflict: "forced_conflict clash_puzzle"
proof -
  have "1 < length (dots clash_puzzle)" "(0::nat) < 1"
    "(0, 0) \<in> set (forced_tiles (dots clash_puzzle ! 1))"
    "inTileBounds clash_puzzle (fst (0, 0)) (snd (0, 0))"
    "(0, 0) \<in> set (forced_tiles (dots clash_puzzle ! 0))"
    by (simp_all add: clash_puzzle_def forced_tiles_def inTileBounds_def)
  then show ?thesis unfolding forced_conflict_def clash_at_def by blast
qed

theorem seeding_forced_tiles_witness:
  "length (dots strip3) \<le> 32768 \<and> length (dots clash_puzzle) \<le> 32768 \<and>
   fst (seedForcedTiles strip3 [[1], [2], [4]] (initial_state strip3)) \<and>
   \<not> forced_conflict strip3 \<and>
   at (snd (seedForcedTiles strip3 [[1], [2], [4]] (initial_state strip3))) 1 0 = 0 \<and>
   forced_conflict clash_puzzle \<and> solve clash_puzzle [[1, 2], [3, 4]] 0 = NoSolution \<and>
   \<not> (odd (dot_x (dots edge_puzzle ! 0)) \<and> odd (dot_y (dots edge_puzzle ! 0))) \<and>
   c_prefill_dot edge_puzzle [[1], [2]] c_initial_state 0 = (True, c_initial_state)"
proof -
  have l: "length (dots strip3) \<le> 32768" "length (dots clash_puzzle) \<le> 32768"
    "length (dots edge_puzzle) \<le> 32768"
    by (simp_all add: strip3_def clash_puzzle_def edge_puzzle_def)
  have e: "\<not> (odd (dot_x (dots edge_puzzle ! 0)) \<and> odd (dot_y (dots edge_puzzle ! 0)))"
    by (simp add: edge_puzzle_def)
  have a: "fst (seedForcedTiles strip3 [[1], [2], [4]] (initial_state strip3))"
    by (simp add: strip3_seeded)
  have t: "(1, 0) \<in> set (forced_tiles (dots strip3 ! 0))" "inTileBounds strip3 1 0"
    "0 < length (dots strip3)"
    by (simp_all add: strip3_def forced_tiles_def inTileBounds_def)
  from seeding_forced_tiles [OF l(1), of "[[1], [2], [4]]" 0] a t
  have "\<not> forced_conflict strip3"
    "at (snd (seedForcedTiles strip3 [[1], [2], [4]] (initial_state strip3))) 1 0 = 0"
    by force+
  moreover from seeding_forced_tiles [OF l(2), of "[[1, 2], [3, 4]]" 0] clash_puzzle_conflict
  have "solve clash_puzzle [[1, 2], [3, 4]] 0 = NoSolution" by blast
  moreover from seeding_forced_tiles [OF l(3), of "[[1], [2]]" 0] e
  have "c_prefill_dot edge_puzzle [[1], [2]] c_initial_state 0 = (True, c_initial_state)" by blast
  ultimately show ?thesis using a clash_puzzle_conflict l e by blast
qed








section \<open>Generator: board state (simple\_generator.c)\<close>

datatype space_type = s_tile | s_edge | s_vertex

definition F_DOT :: "32 word" where "F_DOT = 1"
definition F_EDGE_SET :: "32 word" where "F_EDGE_SET = 2"
definition F_TILE_ASSOC :: "32 word" where "F_TILE_ASSOC = 4"
definition F_DOT_BLACK :: "32 word" where "F_DOT_BLACK = 8"
definition F_MARK :: "32 word" where "F_MARK = 16"

record space =
  sp_x :: int
  sp_y :: int
  sp_type :: space_type
  flags :: "32 word"
  dotx :: int
  doty :: int
  nassoc :: int

text \<open>
  The grid is the dense array \<open>grid[y * sx + x]\<close>; a \<open>space *\<close> of the source is the
  index of the cell in the array, and \<open>dots\<close> is the list of the indices of the dots.
\<close>

record game_state =
  gs_w :: int
  gs_h :: int
  gs_sx :: int
  gs_sy :: int
  gs_grid :: "space list"
  gs_ndots :: int
  gs_dots :: "nat list"

datatype error = AssertionFailed | DivisionByZero | NullPointer

definition INGRID :: "game_state \<Rightarrow> int \<Rightarrow> int \<Rightarrow> bool" where
  "INGRID s x y = (x \<ge> 0 \<and> y \<ge> 0 \<and> x < gs_sx s \<and> y < gs_sy s)"

definition idx :: "game_state \<Rightarrow> int \<Rightarrow> int \<Rightarrow> nat" where
  "idx s x y = nat (y * gs_sx s + x)"

definition SPACE :: "game_state \<Rightarrow> int \<Rightarrow> int \<Rightarrow> space" where
  "SPACE s x y = gs_grid s ! idx s x y"

definition upd :: "game_state \<Rightarrow> nat \<Rightarrow> (space \<Rightarrow> space) \<Rightarrow> game_state" where
  "upd s i f = s\<lparr>gs_grid := (gs_grid s)[i := f (gs_grid s ! i)]\<rparr>"

definition has_flag :: "space \<Rightarrow> 32 word \<Rightarrow> bool" where
  "has_flag c F = (flags c AND F \<noteq> 0)"

definition blank_space :: "int \<Rightarrow> int \<Rightarrow> space" where
  "blank_space x y =
     \<lparr>sp_x = x, sp_y = y,
      sp_type = (if tmod x 2 \<noteq> 0 \<and> tmod y 2 \<noteq> 0 then s_tile
                 else if \<not> tmod x 2 \<noteq> 0 \<and> \<not> tmod y 2 \<noteq> 0 then s_vertex
                 else s_edge),
      flags = 0, dotx = 0, doty = 0, nassoc = 0\<rparr>"

definition set_edge :: "game_state \<Rightarrow> nat \<Rightarrow> game_state" where
  "set_edge s i = upd s i (\<lambda>c. c\<lparr>flags := flags c OR F_EDGE_SET\<rparr>)"

text \<open>
  \<open>blank_game\<close> fills \<open>SPACE(x, y) = grid[y * sx + x]\<close> for every \<open>y < sy\<close> and \<open>x < sx\<close>;
  written by array index, cell \<open>i\<close> gets \<open>x = i mod sx\<close> and \<open>y = i div sx\<close>.
\<close>

definition blank_game :: "int \<Rightarrow> int \<Rightarrow> game_state" where
  "blank_game w h =
     (let sx = 2 * w + 1; sy = 2 * h + 1;
          s0 = \<lparr>gs_w = w, gs_h = h, gs_sx = sx, gs_sy = sy,
                gs_grid = map (\<lambda>i. blank_space (int i mod sx) (int i div sx)) [0..<nat (sx * sy)],
                gs_ndots = 0, gs_dots = []\<rparr>;
          s1 = foldl (\<lambda>s x. set_edge (set_edge s (idx s (int x) 0)) (idx s (int x) (sy - 1)))
                 s0 [0..<nat sx];
          s2 = foldl (\<lambda>s y. set_edge (set_edge s (idx s 0 (int y))) (idx s (sx - 1) (int y)))
                 s1 [0..<nat sy]
      in s2)"

definition clear_space :: "game_state \<Rightarrow> space \<Rightarrow> space" where
  "clear_space s sp =
     sp\<lparr>flags := (if sp_x sp = 0 \<or> sp_y sp = 0 \<or> sp_x sp = gs_sx s - 1 \<or> sp_y sp = gs_sy s - 1
                   then F_EDGE_SET else 0),
        nassoc := 0, dotx := - 1, doty := - 1\<rparr>"

definition clear_game :: "game_state \<Rightarrow> game_state" where
  "clear_game s = s\<lparr>gs_grid := map (clear_space s) (gs_grid s), gs_ndots := 0, gs_dots := []\<rparr>"

definition game_update_dots :: "game_state \<Rightarrow> game_state" where
  "game_update_dots s =
     (let ds = filter (\<lambda>i. has_flag (gs_grid s ! i) F_DOT) [0..<nat (gs_sx s * gs_sy s)]
      in s\<lparr>gs_ndots := int (length ds), gs_dots := ds\<rparr>)"

section \<open>Generator: dots and tiles\<close>

definition add_dot :: "game_state \<Rightarrow> nat \<Rightarrow> game_state" where
  "add_dot s sp = upd (upd s sp (\<lambda>c. c\<lparr>flags := flags c OR F_DOT\<rparr>)) sp (\<lambda>c. c\<lparr>nassoc := 0\<rparr>)"

definition space_opposite_dot :: "game_state \<Rightarrow> nat \<Rightarrow> nat \<Rightarrow> nat option" where
  "space_opposite_dot s sp dot =
     (let dx = sp_x (gs_grid s ! dot) - sp_x (gs_grid s ! sp);
          dy = sp_y (gs_grid s ! dot) - sp_y (gs_grid s ! sp);
          x = sp_x (gs_grid s ! dot) + dx;
          y = sp_y (gs_grid s ! dot) + dy
      in if \<not> INGRID s x y then None else Some (idx s x y))"

text \<open>\<open>tile->flags |= F_TILE_ASSOC; tile->dotx = dot->x; tile->doty = dot->y; dot->nassoc++\<close>.\<close>

definition associate :: "game_state \<Rightarrow> nat \<Rightarrow> nat \<Rightarrow> game_state" where
  "associate s tile dot =
     (let s1 = upd s tile (\<lambda>c. c\<lparr>flags := flags c OR F_TILE_ASSOC\<rparr>);
          s2 = upd s1 tile (\<lambda>c. c\<lparr>dotx := sp_x (gs_grid s1 ! dot)\<rparr>);
          s3 = upd s2 tile (\<lambda>c. c\<lparr>doty := sp_y (gs_grid s2 ! dot)\<rparr>)
      in upd s3 dot (\<lambda>c. c\<lparr>nassoc := nassoc c + 1\<rparr>))"

definition other_dot :: "game_state \<Rightarrow> nat \<Rightarrow> nat \<Rightarrow> bool" where
  "other_dot s opp dot =
     (has_flag (gs_grid s ! opp) F_TILE_ASSOC \<and>
      (dotx (gs_grid s ! opp) \<noteq> sp_x (gs_grid s ! dot) \<or>
       doty (gs_grid s ! opp) \<noteq> sp_y (gs_grid s ! dot)))"

definition sod_body :: "nat \<Rightarrow> int \<times> game_state \<Rightarrow> int \<times> int \<Rightarrow> error + (int \<times> game_state)" where
  "sod_body dot rs c =
     (let s = snd rs; tile = idx s (fst c) (snd c)
      in if has_flag (gs_grid s ! tile) F_TILE_ASSOC then Inr rs
         else (case space_opposite_dot s tile dot of
                 None \<Rightarrow> Inr rs
               | Some opp \<Rightarrow>
                   if other_dot s opp dot then Inr rs
                   else (let s1 = associate s tile dot
                         in if has_flag (gs_grid s1 ! opp) F_TILE_ASSOC then
                              (if dotx (gs_grid s1 ! opp) = sp_x (gs_grid s1 ! dot) \<and>
                                  doty (gs_grid s1 ! opp) = sp_y (gs_grid s1 ! dot)
                               then Inr (1, s1) else Inl AssertionFailed)
                            else Inr (1, associate s1 opp dot))))"

fun sod_loop :: "nat \<Rightarrow> (int \<times> int) list \<Rightarrow> int \<times> game_state \<Rightarrow> error + (int \<times> game_state)" where
  "sod_loop dot [] rs = Inr rs"
| "sod_loop dot (c # cs) rs =
     (case sod_body dot rs c of Inl e \<Rightarrow> Inl e | Inr rs' \<Rightarrow> sod_loop dot cs rs')"

text \<open>The values of \<open>for (v = 1; v < n; v += 2)\<close>.\<close>

definition odds :: "int \<Rightarrow> int list" where
  "odds n = map (\<lambda>k. 2 * int k + 1) [0..<nat (n div 2)]"

definition odd_tiles :: "game_state \<Rightarrow> (int \<times> int) list" where
  "odd_tiles s = concat (map (\<lambda>x. map (\<lambda>y. (x, y)) (odds (gs_sy s))) (odds (gs_sx s)))"

definition solver_obvious_dot :: "game_state \<Rightarrow> nat \<Rightarrow> error + (int \<times> game_state)" where
  "solver_obvious_dot s dot =
     (if \<not> has_flag (gs_grid s ! dot) F_DOT then Inl AssertionFailed
      else sod_loop dot (odd_tiles s) (0, s))"

definition outline_step :: "bool \<Rightarrow> nat \<Rightarrow> bool \<times> game_state \<Rightarrow> int \<times> int \<Rightarrow> bool \<times> game_state" where
  "outline_step mark tile ds dxy =
     (let s = snd ds;
          ex = sp_x (gs_grid s ! tile) + fst dxy; ey = sp_y (gs_grid s ! tile) + snd dxy;
          tx = ex + fst dxy; ty = ey + snd dxy
      in if \<not> INGRID s ex ey then ds
         else (let edge = idx s ex ey;
                   has_edge = has_flag (gs_grid s ! edge) F_EDGE_SET;
                   same = (if INGRID s tx ty then
                             (let tadj = idx s tx ty
                              in if \<not> has_flag (gs_grid s ! tile) F_TILE_ASSOC
                                 then \<not> has_flag (gs_grid s ! tadj) F_TILE_ASSOC
                                 else has_flag (gs_grid s ! tadj) F_TILE_ASSOC \<and>
                                      dotx (gs_grid s ! tile) = dotx (gs_grid s ! tadj) \<and>
                                      doty (gs_grid s ! tile) = doty (gs_grid s ! tadj))
                           else False)
               in if \<not> has_edge \<and> \<not> same then
                    (True, if mark then upd s edge (\<lambda>c. c\<lparr>flags := flags c OR F_EDGE_SET\<rparr>) else s)
                  else if has_edge \<and> same then
                    (True, if mark then upd s edge (\<lambda>c. c\<lparr>flags := flags c AND NOT F_EDGE_SET\<rparr>) else s)
                  else ds))"

definition outline_dirs :: "(int \<times> int) list" where
  "outline_dirs = [(- 1, 0), (1, 0), (0, - 1), (0, 1)]"

definition outline_tile_fordot :: "game_state \<Rightarrow> nat \<Rightarrow> bool \<Rightarrow> bool \<times> game_state" where
  "outline_tile_fordot s tile mark = foldl (outline_step mark tile) (False, s) outline_dirs"

text \<open>The last loop of \<open>generate_new_game\<close>: outline every tile of the board.\<close>

definition outline_all :: "game_state \<Rightarrow> game_state" where
  "outline_all s =
     foldl (\<lambda>s i. if sp_type (gs_grid s ! i) = s_tile then snd (outline_tile_fordot s i True) else s)
       s [0..<nat (gs_sx s * gs_sy s)]"

section \<open>Generator: growing a region\<close>





section \<open>Generator: facts about flags, cells and indices\<close>

lemma flag_bits:
  "(f AND F_DOT \<noteq> 0) = bit f 0"
  "(f AND F_EDGE_SET \<noteq> 0) = bit f 1"
  "(f AND F_TILE_ASSOC \<noteq> 0) = bit f 2"
  "(f AND F_DOT_BLACK \<noteq> 0) = bit f 3"
  for f :: "32 word"
  using and_exp_eq_0_iff_not_bit [of f 0] and_exp_eq_0_iff_not_bit [of f 1]
    and_exp_eq_0_iff_not_bit [of f 2] and_exp_eq_0_iff_not_bit [of f 3]
  by (simp_all add: F_DOT_def F_EDGE_SET_def F_TILE_ASSOC_def F_DOT_BLACK_def)

lemma flag_pow:
  "F_DOT = 2 ^ 0" "F_EDGE_SET = 2 ^ 1" "F_TILE_ASSOC = 2 ^ 2" "F_DOT_BLACK = 2 ^ 3"
  by (simp_all add: F_DOT_def F_EDGE_SET_def F_TILE_ASSOC_def F_DOT_BLACK_def)

lemma bit_or_pow: "k < 32 \<Longrightarrow> bit ((f::32 word) OR 2 ^ j) k = (bit f k \<or> k = j)"
  by (auto simp: bit_or_iff bit_exp_iff)

lemma bit_andnot_pow: "k < 32 \<Longrightarrow> bit ((f::32 word) AND NOT (2 ^ j)) k = (bit f k \<and> k \<noteq> j)"
  by (auto simp: bit_and_iff bit_not_iff bit_exp_iff)

lemma and_or_pow:
  "k < 32 \<Longrightarrow> (((f::32 word) OR 2 ^ j) AND 2 ^ k \<noteq> 0) = (f AND 2 ^ k \<noteq> 0 \<or> k = j)"
  by (simp only: and_exp_eq_0_iff_not_bit bit_or_pow not_not)

lemma and_andnot_pow:
  "k < 32 \<Longrightarrow> (((f::32 word) AND NOT (2 ^ j)) AND 2 ^ k \<noteq> 0) = (f AND 2 ^ k \<noteq> 0 \<and> k \<noteq> j)"
  by (simp only: and_exp_eq_0_iff_not_bit bit_andnot_pow not_not)

lemma has_flag_simps:
  "has_flag (c\<lparr>flags := flags c OR F_TILE_ASSOC\<rparr>) F_TILE_ASSOC"
  "has_flag (c\<lparr>flags := flags c OR F_TILE_ASSOC\<rparr>) F_DOT = has_flag c F_DOT"
  "has_flag (c\<lparr>flags := flags c OR F_TILE_ASSOC\<rparr>) F_EDGE_SET = has_flag c F_EDGE_SET"
  "has_flag (c\<lparr>flags := flags c OR F_DOT\<rparr>) F_DOT"
  "has_flag (c\<lparr>flags := flags c OR F_DOT\<rparr>) F_TILE_ASSOC = has_flag c F_TILE_ASSOC"
  "has_flag (c\<lparr>flags := flags c OR F_EDGE_SET\<rparr>) F_EDGE_SET"
  "has_flag (c\<lparr>flags := flags c OR F_EDGE_SET\<rparr>) F_TILE_ASSOC = has_flag c F_TILE_ASSOC"
  "has_flag (c\<lparr>flags := flags c OR F_EDGE_SET\<rparr>) F_DOT = has_flag c F_DOT"
  "\<not> has_flag (c\<lparr>flags := flags c AND NOT F_EDGE_SET\<rparr>) F_EDGE_SET"
  "has_flag (c\<lparr>flags := flags c AND NOT F_EDGE_SET\<rparr>) F_TILE_ASSOC = has_flag c F_TILE_ASSOC"
  "has_flag (c\<lparr>flags := flags c AND NOT F_EDGE_SET\<rparr>) F_DOT = has_flag c F_DOT"
  using and_or_pow [of 2 "flags c" 2] and_or_pow [of 0 "flags c" 2] and_or_pow [of 1 "flags c" 2]
    and_or_pow [of 0 "flags c" 0] and_or_pow [of 2 "flags c" 0]
    and_or_pow [of 1 "flags c" 1] and_or_pow [of 2 "flags c" 1] and_or_pow [of 0 "flags c" 1]
    and_andnot_pow [of 1 "flags c" 1] and_andnot_pow [of 2 "flags c" 1]
    and_andnot_pow [of 0 "flags c" 1]
  by (simp_all add: has_flag_def F_DOT_def F_EDGE_SET_def F_TILE_ASSOC_def)

lemma has_flag_other_fields [simp]:
  "has_flag (c\<lparr>nassoc := n\<rparr>) F = has_flag c F"
  "has_flag (c\<lparr>dotx := a\<rparr>) F = has_flag c F"
  "has_flag (c\<lparr>doty := b\<rparr>) F = has_flag c F"
  by (simp_all add: has_flag_def)

lemma upd_fields [simp]:
  "gs_sx (upd s i f) = gs_sx s" "gs_sy (upd s i f) = gs_sy s"
  "gs_w (upd s i f) = gs_w s" "gs_h (upd s i f) = gs_h s"
  "gs_ndots (upd s i f) = gs_ndots s" "gs_dots (upd s i f) = gs_dots s"
  "length (gs_grid (upd s i f)) = length (gs_grid s)"
  by (simp_all add: upd_def)

lemma upd_nth:
  "i < length (gs_grid s) \<Longrightarrow>
   gs_grid (upd s i f) ! j = (if j = i then f (gs_grid s ! i) else gs_grid s ! j)"
  by (simp add: upd_def nth_list_update)

lemma INGRID_upd [simp]: "INGRID (upd s i f) x y = INGRID s x y"
  by (simp add: INGRID_def)

lemma idx_upd [simp]: "idx (upd s i f) x y = idx s x y"
  by (simp add: idx_def)

text \<open>
  Every board is built by \<open>blank_game\<close>: the array has \<open>sx * sy\<close> cells, and the cell at
  index \<open>y * sx + x\<close> records its own coordinates and the type its parities give.
\<close>

definition type_of :: "int \<Rightarrow> int \<Rightarrow> space_type" where
  "type_of x y = (if odd x \<and> odd y then s_tile else if even x \<and> even y then s_vertex else s_edge)"

definition wf_game :: "game_state \<Rightarrow> bool" where
  "wf_game s =
     (0 < gs_sx s \<and> 0 \<le> gs_sy s \<and> length (gs_grid s) = nat (gs_sx s * gs_sy s) \<and>
      (\<forall>i<length (gs_grid s).
          sp_x (gs_grid s ! i) = int i mod gs_sx s \<and>
          sp_y (gs_grid s ! i) = int i div gs_sx s \<and>
          sp_type (gs_grid s ! i) = type_of (sp_x (gs_grid s ! i)) (sp_y (gs_grid s ! i))))"

definition geom_eq :: "space \<Rightarrow> space \<Rightarrow> bool" where
  "geom_eq c c' = (sp_x c' = sp_x c \<and> sp_y c' = sp_y c \<and> sp_type c' = sp_type c)"

lemma wf_upd:
  "wf_game s \<Longrightarrow> geom_eq (gs_grid s ! i) (f (gs_grid s ! i)) \<Longrightarrow> wf_game (upd s i f)"
proof (cases "i < length (gs_grid s)")
  case True
  assume "wf_game s" "geom_eq (gs_grid s ! i) (f (gs_grid s ! i))"
  then show ?thesis unfolding wf_game_def geom_eq_def using True
    by (simp add: upd_nth)
next
  case False
  then have "upd s i f = s" by (simp add: upd_def list_update_beyond)
  moreover assume "wf_game s"
  ultimately show ?thesis by simp
qed

lemma idx_lt:
  assumes "wf_game s" "INGRID s x y"
  shows "idx s x y < length (gs_grid s)"
proof -
  have a: "0 \<le> x" "x < gs_sx s" "0 \<le> y" "y + 1 \<le> gs_sy s" using assms(2) by (auto simp: INGRID_def)
  have "y * gs_sx s + x < (y + 1) * gs_sx s" using a by (simp add: algebra_simps)
  also have "\<dots> \<le> gs_sy s * gs_sx s" using a(4) assms(1) by (intro mult_right_mono) (auto simp: wf_game_def)
  finally have "y * gs_sx s + x < gs_sx s * gs_sy s" by (simp add: mult.commute)
  moreover have "0 \<le> y * gs_sx s + x" using a assms(1) by (simp add: wf_game_def)
  ultimately show ?thesis using assms(1) by (simp add: idx_def wf_game_def)
qed

lemma idx_coords:
  assumes "wf_game s" "INGRID s x y"
  shows "sp_x (gs_grid s ! idx s x y) = x" "sp_y (gs_grid s ! idx s x y) = y"
    "sp_type (gs_grid s ! idx s x y) = type_of x y"
proof -
  have a: "0 \<le> x" "x < gs_sx s" "0 \<le> y" using assms(2) by (auto simp: INGRID_def)
  then have n: "int (idx s x y) = y * gs_sx s + x" using assms(1) by (simp add: idx_def wf_game_def)
  have m: "(y * gs_sx s + x) mod gs_sx s = x" using a by simp
  have d: "(y * gs_sx s + x) div gs_sx s = y" using a by simp
  note lt = idx_lt [OF assms]
  show x: "sp_x (gs_grid s ! idx s x y) = x" using assms(1) lt n m by (simp add: wf_game_def)
  show y: "sp_y (gs_grid s ! idx s x y) = y" using assms(1) lt n d by (simp add: wf_game_def)
  show "sp_type (gs_grid s ! idx s x y) = type_of x y"
    using assms(1) lt x y by (simp add: wf_game_def)
qed

lemma coords_idx:
  assumes "wf_game s" "i < length (gs_grid s)"
  shows "INGRID s (sp_x (gs_grid s ! i)) (sp_y (gs_grid s ! i))"
    "idx s (sp_x (gs_grid s ! i)) (sp_y (gs_grid s ! i)) = i"
proof -
  have sx: "0 < gs_sx s" and len: "int i < gs_sx s * gs_sy s"
    using assms by (auto simp: wf_game_def)
  have xy: "sp_x (gs_grid s ! i) = int i mod gs_sx s" "sp_y (gs_grid s ! i) = int i div gs_sx s"
    using assms by (auto simp: wf_game_def)
  have "gs_sx s * (int i div gs_sx s) + int i mod gs_sx s = int i" by simp
  moreover have "0 \<le> int i mod gs_sx s" using sx by simp
  ultimately have "gs_sx s * (int i div gs_sx s) \<le> int i" by linarith
  then have "gs_sx s * (int i div gs_sx s) < gs_sx s * gs_sy s" using len by simp
  then have "int i div gs_sx s < gs_sy s" using sx by (simp add: mult_less_cancel_left_pos)
  moreover have "0 \<le> int i div gs_sx s" using sx by (simp add: pos_imp_zdiv_nonneg_iff)
  ultimately show "INGRID s (sp_x (gs_grid s ! i)) (sp_y (gs_grid s ! i))"
    using sx by (simp add: INGRID_def xy)
  show "idx s (sp_x (gs_grid s ! i)) (sp_y (gs_grid s ! i)) = i"
    by (simp add: idx_def xy)
qed

lemma cell_coords_inj:
  assumes "wf_game s" "i < length (gs_grid s)" "j < length (gs_grid s)"
    "sp_x (gs_grid s ! i) = sp_x (gs_grid s ! j)" "sp_y (gs_grid s ! i) = sp_y (gs_grid s ! j)"
  shows "i = j"
proof -
  have "i = idx s (sp_x (gs_grid s ! i)) (sp_y (gs_grid s ! i))"
    using coords_idx(2) [OF assms(1,2)] by (rule sym)
  also have "\<dots> = idx s (sp_x (gs_grid s ! j)) (sp_y (gs_grid s ! j))"
    by (simp only: assms(4,5))
  also have "\<dots> = j" using assms(1,3) by (rule coords_idx(2))
  finally show ?thesis .
qed

section \<open>Generator: counting the tiles of a dot\<close>

definition assoc_to :: "space \<Rightarrow> int \<Rightarrow> int \<Rightarrow> bool" where
  "assoc_to c dx dy = (sp_type c = s_tile \<and> has_flag c F_TILE_ASSOC \<and> dotx c = dx \<and> doty c = dy)"

definition count_assoc :: "game_state \<Rightarrow> int \<Rightarrow> int \<Rightarrow> int" where
  "count_assoc s dx dy = int (length (filter (\<lambda>c. assoc_to c dx dy) (gs_grid s)))"

definition nassoc_ok :: "game_state \<Rightarrow> bool" where
  "nassoc_ok s =
     (\<forall>i<length (gs_grid s). has_flag (gs_grid s ! i) F_DOT \<longrightarrow>
        nassoc (gs_grid s ! i) = count_assoc s (sp_x (gs_grid s ! i)) (sp_y (gs_grid s ! i)))"

lemma filter_update_count:
  "i < length xs \<Longrightarrow>
   int (length (filter P (xs[i := v])))
   = int (length (filter P xs)) + (if P v then 1 else 0) - (if P (xs ! i) then 1 else 0)"
proof (induction xs arbitrary: i)
  case Nil
  then show ?case by simp
next
  case (Cons a xs)
  show ?case
  proof (cases i)
    case 0
    then show ?thesis by simp
  next
    case (Suc k)
    with Cons.prems have "k < length xs" by simp
    from Cons.IH [OF this] Suc show ?thesis
      by (cases "P a"; cases "P v"; cases "P (xs ! k)"; simp)
  qed
qed

lemma count_upd:
  "i < length (gs_grid s) \<Longrightarrow>
   count_assoc (upd s i f) dx dy
   = count_assoc s dx dy + (if assoc_to (f (gs_grid s ! i)) dx dy then 1 else 0)
     - (if assoc_to (gs_grid s ! i) dx dy then 1 else 0)"
  unfolding count_assoc_def upd_def by (simp add: filter_update_count)

definition set_owner :: "int \<Rightarrow> int \<Rightarrow> space \<Rightarrow> space" where
  "set_owner xd yd c = c\<lparr>flags := flags c OR F_TILE_ASSOC, dotx := xd, doty := yd\<rparr>"

definition bump :: "space \<Rightarrow> space" where
  "bump c = c\<lparr>nassoc := nassoc c + 1\<rparr>"

lemma upd_upd: "upd (upd s i f) i g = upd s i (\<lambda>c. g (f c))"
  by (cases "i < length (gs_grid s)") (simp_all add: upd_def list_update_beyond)

lemma associate_alt:
  assumes "tile < length (gs_grid s)" "dot < length (gs_grid s)"
  shows "associate s tile dot
         = upd (upd s tile (set_owner (sp_x (gs_grid s ! dot)) (sp_y (gs_grid s ! dot)))) dot bump"
proof -
  let ?xd = "sp_x (gs_grid s ! dot)" and ?yd = "sp_y (gs_grid s ! dot)"
  let ?s1 = "upd s tile (\<lambda>c. c\<lparr>flags := flags c OR F_TILE_ASSOC\<rparr>)"
  let ?s2 = "upd ?s1 tile (\<lambda>c. c\<lparr>dotx := sp_x (gs_grid ?s1 ! dot)\<rparr>)"
  let ?s3 = "upd ?s2 tile (\<lambda>c. c\<lparr>doty := sp_y (gs_grid ?s2 ! dot)\<rparr>)"
  have x1: "sp_x (gs_grid ?s1 ! dot) = ?xd"
    using assms by (simp add: upd_nth)
  have y2: "sp_y (gs_grid ?s2 ! dot) = ?yd"
    using assms by (simp add: upd_nth)
  have "?s3 = upd s tile (\<lambda>c. c\<lparr>flags := flags c OR F_TILE_ASSOC, dotx := ?xd, doty := ?yd\<rparr>)"
    unfolding y2 unfolding x1 by (simp only: upd_upd)
  then have "associate s tile dot = upd (upd s tile (set_owner ?xd ?yd)) dot bump"
    unfolding associate_def Let_def set_owner_def bump_def by simp
  then show ?thesis .
qed

lemma associate_fields [simp]:
  "gs_sx (associate s t d) = gs_sx s" "gs_sy (associate s t d) = gs_sy s"
  "gs_w (associate s t d) = gs_w s" "gs_h (associate s t d) = gs_h s"
  "gs_ndots (associate s t d) = gs_ndots s" "gs_dots (associate s t d) = gs_dots s"
  "length (gs_grid (associate s t d)) = length (gs_grid s)"
  "INGRID (associate s t d) x y = INGRID s x y" "idx (associate s t d) x y = idx s x y"
  by (simp_all add: associate_def Let_def)

lemma associate_nth:
  assumes "tile < length (gs_grid s)" "dot < length (gs_grid s)"
  shows "gs_grid (associate s tile dot) ! j =
     (let c = (if j = tile then set_owner (sp_x (gs_grid s ! dot)) (sp_y (gs_grid s ! dot)) (gs_grid s ! j)
               else gs_grid s ! j)
      in if j = dot then bump c else c)"
  unfolding associate_alt [OF assms] using assms by (simp add: upd_nth Let_def)

lemma geom_simps [simp]:
  "sp_x (set_owner a b c) = sp_x c" "sp_y (set_owner a b c) = sp_y c"
  "sp_type (set_owner a b c) = sp_type c" "nassoc (set_owner a b c) = nassoc c"
  "dotx (set_owner a b c) = a" "doty (set_owner a b c) = b"
  "sp_x (bump c) = sp_x c" "sp_y (bump c) = sp_y c" "sp_type (bump c) = sp_type c"
  "dotx (bump c) = dotx c" "doty (bump c) = doty c" "nassoc (bump c) = nassoc c + 1"
  "has_flag (bump c) F = has_flag c F"
  "has_flag (set_owner a b c) F_TILE_ASSOC" "has_flag (set_owner a b c) F_DOT = has_flag c F_DOT"
  "has_flag (set_owner a b c) F_EDGE_SET = has_flag c F_EDGE_SET"
  using has_flag_simps(1-3) [of c]
  by (simp_all add: set_owner_def bump_def has_flag_def)

lemma wf_associate:
  assumes "wf_game s" "tile < length (gs_grid s)" "dot < length (gs_grid s)"
  shows "wf_game (associate s tile dot)"
  unfolding associate_alt [OF assms(2,3)]
  by (intro wf_upd) (use assms in \<open>simp_all add: geom_eq_def upd_nth\<close>)

lemma count_associate:
  assumes "tile < length (gs_grid s)" "dot < length (gs_grid s)"
    and "sp_type (gs_grid s ! tile) = s_tile" "\<not> has_flag (gs_grid s ! tile) F_TILE_ASSOC"
  shows "count_assoc (associate s tile dot) dx dy
         = count_assoc s dx dy
           + (if dx = sp_x (gs_grid s ! dot) \<and> dy = sp_y (gs_grid s ! dot) then 1 else 0)"
proof -
  let ?F = "set_owner (sp_x (gs_grid s ! dot)) (sp_y (gs_grid s ! dot))"
  have a: "count_assoc (upd s tile ?F) dx dy
           = count_assoc s dx dy
             + (if dx = sp_x (gs_grid s ! dot) \<and> dy = sp_y (gs_grid s ! dot) then 1 else 0)"
    using assms by (auto simp: count_upd assoc_to_def)
  have "assoc_to (bump c) dx dy = assoc_to c dx dy" for c by (simp add: assoc_to_def)
  then have "count_assoc (upd (upd s tile ?F) dot bump) dx dy = count_assoc (upd s tile ?F) dx dy"
    using assms(2) by (simp add: count_upd)
  with a show ?thesis unfolding associate_alt [OF assms(1,2)] by simp
qed

lemma nassoc_ok_associate:
  assumes wf: "wf_game s" and t: "tile < length (gs_grid s)" and d: "dot < length (gs_grid s)"
    and ty: "sp_type (gs_grid s ! tile) = s_tile"
    and un: "\<not> has_flag (gs_grid s ! tile) F_TILE_ASSOC"
    and ok: "nassoc_ok s"
  shows "nassoc_ok (associate s tile dot)"
  unfolding nassoc_ok_def
proof (intro allI impI)
  fix i
  assume i: "i < length (gs_grid (associate s tile dot))"
    and dotf: "has_flag (gs_grid (associate s tile dot) ! i) F_DOT"
  let ?c' = "gs_grid (associate s tile dot) ! i" and ?c = "gs_grid s ! i"
  have il: "i < length (gs_grid s)" using i by simp
  have g: "sp_x ?c' = sp_x ?c" "sp_y ?c' = sp_y ?c" "has_flag ?c' F_DOT = has_flag ?c F_DOT"
    "nassoc ?c' = nassoc ?c + (if i = dot then 1 else 0)"
    by (simp_all add: associate_nth [OF t d] Let_def)
  have old: "nassoc ?c = count_assoc s (sp_x ?c) (sp_y ?c)"
    using ok il dotf g(3) by (simp add: nassoc_ok_def)
  have same: "(sp_x ?c = sp_x (gs_grid s ! dot) \<and> sp_y ?c = sp_y (gs_grid s ! dot)) = (i = dot)"
    using cell_coords_inj [OF wf il d] by auto
  show "nassoc ?c' = count_assoc (associate s tile dot) (sp_x ?c') (sp_y ?c')"
    unfolding g count_associate [OF t d ty un] old using same by simp
qed

section \<open>Generator: the propagator keeps the count\<close>

definition step_ok :: "game_state \<Rightarrow> game_state \<Rightarrow> bool" where
  "step_ok s s' =
     (wf_game s' \<and> gs_sx s' = gs_sx s \<and> gs_sy s' = gs_sy s \<and>
      length (gs_grid s') = length (gs_grid s) \<and>
      (\<forall>i<length (gs_grid s). geom_eq (gs_grid s ! i) (gs_grid s' ! i) \<and>
          has_flag (gs_grid s' ! i) F_DOT = has_flag (gs_grid s ! i) F_DOT) \<and>
      (\<forall>i<length (gs_grid s).
          nassoc (gs_grid s' ! i) - count_assoc s' (sp_x (gs_grid s ! i)) (sp_y (gs_grid s ! i))
          = nassoc (gs_grid s ! i) - count_assoc s (sp_x (gs_grid s ! i)) (sp_y (gs_grid s ! i))))"


lemma step_ok_refl: "wf_game s \<Longrightarrow> step_ok s s"
  by (simp add: step_ok_def geom_eq_def)

lemma step_ok_trans:
  assumes "step_ok s s1" "step_ok s1 s2"
  shows "step_ok s s2"
  unfolding step_ok_def
proof (intro conjI allI impI)
  show "wf_game s2" "gs_sx s2 = gs_sx s" "gs_sy s2 = gs_sy s" "length (gs_grid s2) = length (gs_grid s)"
    using assms by (simp_all add: step_ok_def)
next
  fix i assume i: "i < length (gs_grid s)"
  then have i1: "i < length (gs_grid s1)" using assms(1) by (simp add: step_ok_def)
  from assms(1) i have a: "geom_eq (gs_grid s ! i) (gs_grid s1 ! i)"
      "has_flag (gs_grid s1 ! i) F_DOT = has_flag (gs_grid s ! i) F_DOT"
      "nassoc (gs_grid s1 ! i) - count_assoc s1 (sp_x (gs_grid s ! i)) (sp_y (gs_grid s ! i))
       = nassoc (gs_grid s ! i) - count_assoc s (sp_x (gs_grid s ! i)) (sp_y (gs_grid s ! i))"
    by (simp_all add: step_ok_def)
  from assms(2) i1 have b: "geom_eq (gs_grid s1 ! i) (gs_grid s2 ! i)"
      "has_flag (gs_grid s2 ! i) F_DOT = has_flag (gs_grid s1 ! i) F_DOT"
      "nassoc (gs_grid s2 ! i) - count_assoc s2 (sp_x (gs_grid s1 ! i)) (sp_y (gs_grid s1 ! i))
       = nassoc (gs_grid s1 ! i) - count_assoc s1 (sp_x (gs_grid s1 ! i)) (sp_y (gs_grid s1 ! i))"
    by (simp_all add: step_ok_def)
  show "geom_eq (gs_grid s ! i) (gs_grid s2 ! i)" using a(1) b(1) by (simp add: geom_eq_def)
  show "has_flag (gs_grid s2 ! i) F_DOT = has_flag (gs_grid s ! i) F_DOT" using a(2) b(2) by simp
  show "nassoc (gs_grid s2 ! i) - count_assoc s2 (sp_x (gs_grid s ! i)) (sp_y (gs_grid s ! i))
       = nassoc (gs_grid s ! i) - count_assoc s (sp_x (gs_grid s ! i)) (sp_y (gs_grid s ! i))"
    using a(1,3) b(3) by (simp add: geom_eq_def)
qed

lemma step_ok_INGRID: "step_ok s s' \<Longrightarrow> INGRID s' x y = INGRID s x y"
  by (simp add: step_ok_def INGRID_def)

lemma step_ok_associate:
  assumes "wf_game s" "tile < length (gs_grid s)" "dot < length (gs_grid s)"
    "sp_type (gs_grid s ! tile) = s_tile" "\<not> has_flag (gs_grid s ! tile) F_TILE_ASSOC"
  shows "step_ok s (associate s tile dot)"
  unfolding step_ok_def
proof (intro conjI allI impI)
  show "wf_game (associate s tile dot)" using assms(1-3) by (rule wf_associate)
next
  fix i assume i: "i < length (gs_grid s)"
  show "geom_eq (gs_grid s ! i) (gs_grid (associate s tile dot) ! i)"
    by (simp add: associate_nth [OF assms(2,3)] geom_eq_def Let_def)
  show "has_flag (gs_grid (associate s tile dot) ! i) F_DOT = has_flag (gs_grid s ! i) F_DOT"
    by (simp add: associate_nth [OF assms(2,3)] Let_def)
  have same: "(sp_x (gs_grid s ! i) = sp_x (gs_grid s ! dot) \<and> sp_y (gs_grid s ! i) = sp_y (gs_grid s ! dot))
              = (i = dot)"
    using cell_coords_inj [OF assms(1) i assms(3)] by auto
  have "nassoc (gs_grid (associate s tile dot) ! i) = nassoc (gs_grid s ! i) + (if i = dot then 1 else 0)"
    by (simp add: associate_nth [OF assms(2,3)] Let_def)
  then show "nassoc (gs_grid (associate s tile dot) ! i)
        - count_assoc (associate s tile dot) (sp_x (gs_grid s ! i)) (sp_y (gs_grid s ! i))
      = nassoc (gs_grid s ! i) - count_assoc s (sp_x (gs_grid s ! i)) (sp_y (gs_grid s ! i))"
    unfolding count_associate [OF assms(2-5)] using same by simp
qed simp_all

lemma type_of_opposite: "type_of (a + (a - x)) (b + (b - y)) = type_of x y"
  by (simp add: type_of_def)

lemma space_opposite_dot_Some:
  assumes "wf_game s" "space_opposite_dot s t d = Some opp"
  shows "opp < length (gs_grid s)"
    "sp_type (gs_grid s ! opp) = type_of (sp_x (gs_grid s ! t)) (sp_y (gs_grid s ! t))"
proof -
  let ?x = "sp_x (gs_grid s ! d) + (sp_x (gs_grid s ! d) - sp_x (gs_grid s ! t))"
  let ?y = "sp_y (gs_grid s ! d) + (sp_y (gs_grid s ! d) - sp_y (gs_grid s ! t))"
  from assms(2) have i: "INGRID s ?x ?y" and o: "opp = idx s ?x ?y"
    by (auto simp: space_opposite_dot_def Let_def split: if_splits)
  show "opp < length (gs_grid s)" unfolding o using assms(1) i by (rule idx_lt)
  show "sp_type (gs_grid s ! opp) = type_of (sp_x (gs_grid s ! t)) (sp_y (gs_grid s ! t))"
    unfolding o idx_coords(3) [OF assms(1) i] by (rule type_of_opposite)
qed

lemma cell_type:
  "wf_game s \<Longrightarrow> i < length (gs_grid s) \<Longrightarrow>
   sp_type (gs_grid s ! i) = type_of (sp_x (gs_grid s ! i)) (sp_y (gs_grid s ! i))"
  by (simp add: wf_game_def)

lemma sod_body_ok:
  assumes wf: "wf_game s" and d: "dot < length (gs_grid s)"
    and c: "INGRID s x y" "odd x" "odd y"
  shows "\<exists>r' s'. sod_body dot (r, s) (x, y) = Inr (r', s') \<and> step_ok s s' \<and> (r' = r \<or> r' = 1)"
proof -
  let ?tile = "idx s x y"
  have t: "?tile < length (gs_grid s)" using wf c(1) by (rule idx_lt)
  have ty: "sp_type (gs_grid s ! ?tile) = s_tile"
    using idx_coords(3) [OF wf c(1)] c(2,3) by (simp add: type_of_def)
  have tt: "type_of (sp_x (gs_grid s ! ?tile)) (sp_y (gs_grid s ! ?tile)) = s_tile"
    using cell_type [OF wf t] ty by simp
  show ?thesis
  proof (cases "has_flag (gs_grid s ! ?tile) F_TILE_ASSOC")
    case True
    then show ?thesis using wf by (simp add: sod_body_def step_ok_refl)
  next
    case un: False
    show ?thesis
    proof (cases "space_opposite_dot s ?tile dot")
      case None
      then show ?thesis using wf un by (simp add: sod_body_def step_ok_refl)
    next
      case (Some opp)
      note o = space_opposite_dot_Some [OF wf Some]
      show ?thesis
      proof (cases "other_dot s opp dot")
        case True
        then show ?thesis using wf un Some by (simp add: sod_body_def step_ok_refl)
      next
        case no: False
        let ?s1 = "associate s ?tile dot"
        have s1: "step_ok s ?s1" using wf t d ty un by (rule step_ok_associate)
        have n1: "gs_grid ?s1 ! j =
            (let c = (if j = ?tile then set_owner (sp_x (gs_grid s ! dot)) (sp_y (gs_grid s ! dot)) (gs_grid s ! j)
                      else gs_grid s ! j)
             in if j = dot then bump c else c)" for j
          by (rule associate_nth [OF t d])
        show ?thesis
        proof (cases "has_flag (gs_grid ?s1 ! opp) F_TILE_ASSOC")
          case True
          have "dotx (gs_grid ?s1 ! opp) = sp_x (gs_grid ?s1 ! dot) \<and>
                doty (gs_grid ?s1 ! opp) = sp_y (gs_grid ?s1 ! dot)"
            using True no unfolding n1 other_dot_def Let_def by (auto split: if_splits)
          then have "sod_body dot (r, s) (x, y) = Inr (1, ?s1)"
            using un Some no True by (simp add: sod_body_def Let_def)
          with s1 show ?thesis by blast
        next
          case False
          have wf1: "wf_game ?s1" using s1 by (simp add: step_ok_def)
          have "sp_type (gs_grid ?s1 ! opp) = sp_type (gs_grid s ! opp)"
            using s1 o(1) by (simp add: step_ok_def geom_eq_def)
          then have "sp_type (gs_grid ?s1 ! opp) = s_tile"
            using o(2) tt by simp
          then have "step_ok ?s1 (associate ?s1 opp dot)"
            using wf1 o(1) d False by (intro step_ok_associate) simp_all
          with s1 have "step_ok s (associate ?s1 opp dot)" by (rule step_ok_trans)
          moreover have "sod_body dot (r, s) (x, y) = Inr (1, associate ?s1 opp dot)"
            using un Some no False by (simp add: sod_body_def Let_def)
          ultimately show ?thesis by blast
        qed
      qed
    qed
  qed
qed

lemma sod_loop_ok:
  assumes "dot < length (gs_grid s)"
  shows "wf_game s \<Longrightarrow> \<forall>c\<in>set cs. INGRID s (fst c) (snd c) \<and> odd (fst c) \<and> odd (snd c) \<Longrightarrow>
         \<exists>r' s'. sod_loop dot cs (r, s) = Inr (r', s') \<and> step_ok s s' \<and> (r' = r \<or> r' = 1)"
  using assms
proof (induction cs arbitrary: r s)
  case Nil
  then show ?case by (simp add: step_ok_refl)
next
  case (Cons c cs)
  obtain x y where c: "c = (x, y)" by (cases c)
  from Cons.prems have "INGRID s x y" "odd x" "odd y" by (simp_all add: c)
  from sod_body_ok [OF Cons.prems(1) Cons.prems(3) this, of r]
  obtain r1 s1 where b: "sod_body dot (r, s) (x, y) = Inr (r1, s1)" and s1: "step_ok s s1"
    and r1: "r1 = r \<or> r1 = 1" by blast
  have "\<forall>c\<in>set cs. INGRID s1 (fst c) (snd c) \<and> odd (fst c) \<and> odd (snd c)"
    using Cons.prems(2) step_ok_INGRID [OF s1] by simp
  moreover have "wf_game s1" "dot < length (gs_grid s1)"
    using s1 Cons.prems(3) by (simp_all add: step_ok_def)
  ultimately obtain r' s' where "sod_loop dot cs (r1, s1) = Inr (r', s')" "step_ok s1 s'"
      "r' = r1 \<or> r' = 1"
    using Cons.IH by blast
  with b s1 r1 show ?case by (auto simp: c intro: step_ok_trans)
qed

lemma odds_mem: "x \<in> set (odds n) \<Longrightarrow> 0 \<le> x \<and> x < n \<and> odd x"
  by (auto simp: odds_def)

lemma odd_tiles_mem:
  "c \<in> set (odd_tiles s) \<Longrightarrow> INGRID s (fst c) (snd c) \<and> odd (fst c) \<and> odd (snd c)"
  by (auto simp: odd_tiles_def INGRID_def dest!: odds_mem)

lemma solver_obvious_dot_ok:
  assumes "wf_game s" "dot < length (gs_grid s)" "has_flag (gs_grid s ! dot) F_DOT"
  shows "\<exists>r' s'. solver_obvious_dot s dot = Inr (r', s') \<and> step_ok s s' \<and> (r' = 0 \<or> r' = 1)"
  using sod_loop_ok [OF assms(2,1), of "odd_tiles s" 0] assms(3) odd_tiles_mem
  by (simp add: solver_obvious_dot_def)

section \<open>Generator: growing a region keeps the count\<close>







section \<open>Generator: blank boards, clearing and placing a dot\<close>

lemma foldl_inv: "(\<And>s x. P s \<Longrightarrow> P (f s x)) \<Longrightarrow> P s \<Longrightarrow> P (foldl f s xs)"
  by (induction xs arbitrary: s) simp_all

definition no_dots :: "game_state \<Rightarrow> bool" where
  "no_dots s = (wf_game s \<and> (\<forall>i<length (gs_grid s). \<not> has_flag (gs_grid s ! i) F_DOT))"

lemma no_dots_set_edge: "no_dots s \<Longrightarrow> no_dots (set_edge s i)"
proof (cases "i < length (gs_grid s)")
  case True
  assume "no_dots s"
  then show ?thesis unfolding no_dots_def set_edge_def using True
    by (auto intro!: wf_upd simp: geom_eq_def upd_nth has_flag_simps)
next
  case False
  then have "set_edge s i = s" by (simp add: set_edge_def upd_def list_update_beyond)
  moreover assume "no_dots s"
  ultimately show ?thesis by simp
qed

lemma blank_space_type: "sp_type (blank_space x y) = type_of x y"
  by (simp add: blank_space_def type_of_def tmod_odd)

lemma no_dots_blank_game:
  assumes "0 \<le> w" "0 \<le> h"
  shows "no_dots (blank_game w h)"
proof -
  let ?sx = "2 * w + 1" and ?sy = "2 * h + 1"
  let ?s0 = "\<lparr>gs_w = w, gs_h = h, gs_sx = ?sx, gs_sy = ?sy,
              gs_grid = map (\<lambda>i. blank_space (int i mod ?sx) (int i div ?sx)) [0..<nat (?sx * ?sy)],
              gs_ndots = 0, gs_dots = []\<rparr>"
  have "no_dots ?s0"
    using assms unfolding no_dots_def wf_game_def
    by (auto simp: blank_space_type) (simp_all add: blank_space_def has_flag_def)
  then show ?thesis
    unfolding blank_game_def Let_def
    by (intro foldl_inv [where P = no_dots] no_dots_set_edge)
qed


lemma no_dots_clear_game: "wf_game s \<Longrightarrow> no_dots (clear_game s)"
  unfolding no_dots_def wf_game_def clear_game_def clear_space_def has_flag_def
  by (simp add: F_EDGE_SET_def F_DOT_def)

lemma add_dot_alt: "add_dot s sp = upd s sp (\<lambda>c. c\<lparr>flags := flags c OR F_DOT, nassoc := 0\<rparr>)"
  by (simp add: add_dot_def upd_upd)


section \<open>Generator: the count of associated tiles along the generator's operations\<close>










section \<open>Generator: the contract of \<open>dot_expand_or_move\<close>\<close>





















section \<open>Generator: the border pass\<close>

definition same_at :: "game_state \<Rightarrow> nat \<Rightarrow> int \<times> int \<Rightarrow> bool" where
  "same_at s tile dxy =
     (let tx = sp_x (gs_grid s ! tile) + fst dxy + fst dxy;
          ty = sp_y (gs_grid s ! tile) + snd dxy + snd dxy
      in if INGRID s tx ty then
           (let tadj = idx s tx ty
            in if \<not> has_flag (gs_grid s ! tile) F_TILE_ASSOC
               then \<not> has_flag (gs_grid s ! tadj) F_TILE_ASSOC
               else has_flag (gs_grid s ! tadj) F_TILE_ASSOC \<and>
                    dotx (gs_grid s ! tile) = dotx (gs_grid s ! tadj) \<and>
                    doty (gs_grid s ! tile) = doty (gs_grid s ! tadj))
         else False)"

definition edge_of :: "game_state \<Rightarrow> nat \<Rightarrow> int \<times> int \<Rightarrow> int \<times> int" where
  "edge_of s tile dxy = (sp_x (gs_grid s ! tile) + fst dxy, sp_y (gs_grid s ! tile) + snd dxy)"

definition edge_set :: "game_state \<Rightarrow> int \<times> int \<Rightarrow> bool" where
  "edge_set s e = has_flag (gs_grid s ! idx s (fst e) (snd e)) F_EDGE_SET"

definition edge_ok :: "game_state \<Rightarrow> nat \<Rightarrow> int \<times> int \<Rightarrow> bool" where
  "edge_ok s tile dxy =
     (INGRID s (fst (edge_of s tile dxy)) (snd (edge_of s tile dxy)) \<longrightarrow>
      edge_set s (edge_of s tile dxy) = (\<not> same_at s tile dxy))"

lemma outline_step_alt:
  "outline_step mark tile (b, s) dxy =
     (let e = edge_of s tile dxy
      in if \<not> INGRID s (fst e) (snd e) then (b, s)
         else if \<not> edge_set s e \<and> \<not> same_at s tile dxy then
           (True, if mark then upd s (idx s (fst e) (snd e)) (\<lambda>c. c\<lparr>flags := flags c OR F_EDGE_SET\<rparr>)
                  else s)
         else if edge_set s e \<and> same_at s tile dxy then
           (True, if mark then upd s (idx s (fst e) (snd e)) (\<lambda>c. c\<lparr>flags := flags c AND NOT F_EDGE_SET\<rparr>)
                  else s)
         else (b, s))"
  unfolding outline_step_def same_at_def edge_of_def edge_set_def Let_def
  by (simp add: add.assoc)

definition out_ok :: "game_state \<Rightarrow> game_state \<Rightarrow> bool" where
  "out_ok s s' =
     (wf_game s' \<and> gs_sx s' = gs_sx s \<and> gs_sy s' = gs_sy s \<and>
      length (gs_grid s') = length (gs_grid s) \<and>
      (\<forall>j<length (gs_grid s). geom_eq (gs_grid s ! j) (gs_grid s' ! j) \<and>
          has_flag (gs_grid s' ! j) F_TILE_ASSOC = has_flag (gs_grid s ! j) F_TILE_ASSOC \<and>
          dotx (gs_grid s' ! j) = dotx (gs_grid s ! j) \<and>
          doty (gs_grid s' ! j) = doty (gs_grid s ! j)))"

lemma out_ok_refl: "wf_game s \<Longrightarrow> out_ok s s"
  by (simp add: out_ok_def geom_eq_def)

lemma out_ok_trans: "out_ok s s1 \<Longrightarrow> out_ok s1 s2 \<Longrightarrow> out_ok s s2"
  unfolding out_ok_def geom_eq_def by simp

lemma out_ok_INGRID: "out_ok s s' \<Longrightarrow> INGRID s' x y = INGRID s x y"
  by (simp add: out_ok_def INGRID_def)

lemma out_ok_idx: "out_ok s s' \<Longrightarrow> idx s' x y = idx s x y"
  by (simp add: out_ok_def idx_def)

lemma out_ok_edge_of: "out_ok s s' \<Longrightarrow> t < length (gs_grid s) \<Longrightarrow> edge_of s' t d = edge_of s t d"
  by (simp add: out_ok_def edge_of_def geom_eq_def)

lemma out_ok_same_at:
  assumes "out_ok s s'" "wf_game s" "t < length (gs_grid s)"
  shows "same_at s' t d = same_at s t d"
proof -
  let ?tx = "sp_x (gs_grid s ! t) + fst d + fst d" and ?ty = "sp_y (gs_grid s ! t) + snd d + snd d"
  have g: "sp_x (gs_grid s' ! t) = sp_x (gs_grid s ! t)" "sp_y (gs_grid s' ! t) = sp_y (gs_grid s ! t)"
    "has_flag (gs_grid s' ! t) F_TILE_ASSOC = has_flag (gs_grid s ! t) F_TILE_ASSOC"
    "dotx (gs_grid s' ! t) = dotx (gs_grid s ! t)" "doty (gs_grid s' ! t) = doty (gs_grid s ! t)"
    using assms(1,3) by (simp_all add: out_ok_def geom_eq_def)
  show ?thesis
  proof (cases "INGRID s ?tx ?ty")
    case False
    then show ?thesis
      unfolding same_at_def Let_def g out_ok_INGRID [OF assms(1)] by simp
  next
    case True
    then have "idx s ?tx ?ty < length (gs_grid s)" using assms(2) by (intro idx_lt)
    then have "has_flag (gs_grid s' ! idx s ?tx ?ty) F_TILE_ASSOC
               = has_flag (gs_grid s ! idx s ?tx ?ty) F_TILE_ASSOC"
      "dotx (gs_grid s' ! idx s ?tx ?ty) = dotx (gs_grid s ! idx s ?tx ?ty)"
      "doty (gs_grid s' ! idx s ?tx ?ty) = doty (gs_grid s ! idx s ?tx ?ty)"
      using assms(1) by (simp_all add: out_ok_def)
    then show ?thesis
      unfolding same_at_def Let_def g out_ok_INGRID [OF assms(1)] out_ok_idx [OF assms(1)]
      by simp
  qed
qed

text \<open>Setting or clearing the edge flag of one cell.\<close>

lemma out_ok_upd_edge:
  assumes "wf_game s"
    and "f = (\<lambda>c. c\<lparr>flags := flags c OR F_EDGE_SET\<rparr>) \<or> f = (\<lambda>c. c\<lparr>flags := flags c AND NOT F_EDGE_SET\<rparr>)"
  shows "out_ok s (upd s i f)"
proof (cases "i < length (gs_grid s)")
  case False
  then have "upd s i f = s" by (simp add: upd_def list_update_beyond)
  with assms(1) show ?thesis by (simp add: out_ok_refl)
next
  case True
  have g: "geom_eq c (f c)" "has_flag (f c) F_TILE_ASSOC = has_flag c F_TILE_ASSOC"
    "dotx (f c) = dotx c" "doty (f c) = doty c" for c
    using assms(2) has_flag_simps(7,10) [of c] by (auto simp: geom_eq_def)
  have "wf_game (upd s i f)" using assms(1) g(1) by (rule wf_upd)
  then show ?thesis
    unfolding out_ok_def using True g by (simp add: upd_nth geom_eq_def)
qed

lemma idx_inj:
  assumes "wf_game s" "INGRID s x y" "INGRID s x' y'" "idx s x y = idx s x' y'"
  shows "x = x' \<and> y = y'"
  using idx_coords(1,2) [OF assms(1,2)] idx_coords(1,2) [OF assms(1,3)] assms(4) by simp

lemma edge_set_upd:
  assumes "wf_game s" "INGRID s (fst e0) (snd e0)" "INGRID s (fst e) (snd e)"
  shows "edge_set (upd s (idx s (fst e0) (snd e0)) f) e
         = (if e = e0 then has_flag (f (gs_grid s ! idx s (fst e0) (snd e0))) F_EDGE_SET
            else edge_set s e)"
proof -
  have l: "idx s (fst e0) (snd e0) < length (gs_grid s)" using assms(1,2) by (rule idx_lt)
  have "idx s (fst e) (snd e) = idx s (fst e0) (snd e0) \<longleftrightarrow> e = e0"
    using idx_inj [OF assms(1,3,2)] by (auto simp: prod_eq_iff)
  then show ?thesis unfolding edge_set_def using l by (simp add: upd_nth)
qed

lemma outline_step_effect:
  assumes wf: "wf_game s"
  shows "out_ok s (snd (outline_step True t (b, s) d)) \<and>
     (INGRID s (fst (edge_of s t d)) (snd (edge_of s t d)) \<longrightarrow>
        edge_set (snd (outline_step True t (b, s) d)) (edge_of s t d) = (\<not> same_at s t d)) \<and>
     (\<forall>e. INGRID s (fst e) (snd e) \<longrightarrow> e \<noteq> edge_of s t d \<longrightarrow>
        edge_set (snd (outline_step True t (b, s) d)) e = edge_set s e) \<and>
     (edge_ok s t d \<longrightarrow> outline_step True t (b, s) d = (b, s))"
proof (cases "INGRID s (fst (edge_of s t d)) (snd (edge_of s t d))")
  case False
  then have "outline_step True t (b, s) d = (b, s)" by (simp add: outline_step_alt Let_def)
  with False wf show ?thesis by (simp add: out_ok_refl)
next
  case inb: True
  let ?e = "edge_of s t d"
  let ?i = "idx s (fst ?e) (snd ?e)"
  consider (set) "\<not> edge_set s ?e" "\<not> same_at s t d"
    | (clear) "edge_set s ?e" "same_at s t d"
    | (keep) "edge_set s ?e = (\<not> same_at s t d)"
    by blast
  then show ?thesis
  proof cases
    case set
    let ?f = "\<lambda>c. c\<lparr>flags := flags c OR F_EDGE_SET\<rparr>"
    have e: "outline_step True t (b, s) d = (True, upd s ?i ?f)"
      using inb set by (simp add: outline_step_alt Let_def)
    have "out_ok s (upd s ?i ?f)" using wf by (rule out_ok_upd_edge) simp
    moreover have "edge_set (upd s ?i ?f) e = (if e = ?e then True else edge_set s e)"
      if "INGRID s (fst e) (snd e)" for e
      using edge_set_upd [OF wf inb that, of ?f] by (simp add: has_flag_simps)
    moreover have "\<not> edge_ok s t d" using inb set by (simp add: edge_ok_def)
    ultimately show ?thesis unfolding e using inb set by simp
  next
    case clear
    let ?f = "\<lambda>c. c\<lparr>flags := flags c AND NOT F_EDGE_SET\<rparr>"
    have e: "outline_step True t (b, s) d = (True, upd s ?i ?f)"
      using inb clear by (simp add: outline_step_alt Let_def)
    have "out_ok s (upd s ?i ?f)" using wf by (rule out_ok_upd_edge) simp
    moreover have "edge_set (upd s ?i ?f) e = (if e = ?e then False else edge_set s e)"
      if "INGRID s (fst e) (snd e)" for e
      using edge_set_upd [OF wf inb that, of ?f] by (simp add: has_flag_simps)
    moreover have "\<not> edge_ok s t d" using inb clear by (simp add: edge_ok_def)
    ultimately show ?thesis unfolding e using inb clear by simp
  next
    case keep
    then have "outline_step True t (b, s) d = (b, s)"
      using inb by (auto simp: outline_step_alt Let_def)
    with keep wf show ?thesis by (simp add: out_ok_refl)
  qed
qed

text \<open>Two tiles that share an edge cell compute the same \<open>same\<close> value for it.\<close>

lemma same_at_neighbour:
  assumes wf: "wf_game s" and t: "t < length (gs_grid s)" and n: "n < length (gs_grid s)"
    and x: "sp_x (gs_grid s ! n) = sp_x (gs_grid s ! t) + fst d + fst d"
    and y: "sp_y (gs_grid s ! n) = sp_y (gs_grid s ! t) + snd d + snd d"
  shows "same_at s t d =
     (if \<not> has_flag (gs_grid s ! t) F_TILE_ASSOC then \<not> has_flag (gs_grid s ! n) F_TILE_ASSOC
      else has_flag (gs_grid s ! n) F_TILE_ASSOC \<and>
           dotx (gs_grid s ! t) = dotx (gs_grid s ! n) \<and> doty (gs_grid s ! t) = doty (gs_grid s ! n))"
  using coords_idx [OF wf n] unfolding same_at_def Let_def x [symmetric] y [symmetric] by simp

lemma shared_edge_same:
  assumes wf: "wf_game s" and t: "t < length (gs_grid s)" and t': "t' < length (gs_grid s)"
    and ty: "sp_type (gs_grid s ! t) = s_tile" "sp_type (gs_grid s ! t') = s_tile"
    and d: "d \<in> set outline_dirs" "d' \<in> set outline_dirs"
    and e: "edge_of s t' d' = edge_of s t d"
  shows "same_at s t' d' = same_at s t d"
proof -
  let ?x = "sp_x (gs_grid s ! t)" and ?y = "sp_y (gs_grid s ! t)"
  let ?x' = "sp_x (gs_grid s ! t')" and ?y' = "sp_y (gs_grid s ! t')"
  have odd: "odd ?x" "odd ?y" "odd ?x'" "odd ?y'"
    using cell_type [OF wf t] cell_type [OF wf t'] ty
    by (auto simp: type_of_def split: if_splits)
  have eq: "?x' + fst d' = ?x + fst d" "?y' + snd d' = ?y + snd d"
    using e by (simp_all add: edge_of_def)
  have dd: "d' = d \<or> d' = (- fst d, - snd d)"
    using d eq odd unfolding outline_dirs_def by auto
  then show ?thesis
  proof
    assume "d' = d"
    with eq have "?x' = ?x" "?y' = ?y" by simp_all
    then have "t' = t" using cell_coords_inj [OF wf t' t] by simp
    with \<open>d' = d\<close> show ?thesis by simp
  next
    assume o: "d' = (- fst d, - snd d)"
    with eq have c: "?x' = ?x + fst d + fst d" "?y' = ?y + snd d + snd d" by simp_all
    then have c': "?x = ?x' + fst d' + fst d'" "?y = ?y' + snd d' + snd d'" using o by simp_all
    show ?thesis
      unfolding same_at_neighbour [OF wf t t' c] same_at_neighbour [OF wf t' t c'] by auto
  qed
qed

definition tile_dirs :: "game_state \<Rightarrow> (nat \<times> (int \<times> int)) set" where
  "tile_dirs s =
     {(t, d). t < length (gs_grid s) \<and> sp_type (gs_grid s ! t) = s_tile \<and> d \<in> set outline_dirs}"

lemma out_ok_tile_dirs: "out_ok s s' \<Longrightarrow> tile_dirs s' = tile_dirs s"
  unfolding tile_dirs_def out_ok_def geom_eq_def by auto

lemma out_ok_edge_ok:
  assumes "out_ok s s'" "wf_game s" "t < length (gs_grid s)"
  shows "edge_ok s' t d =
     (INGRID s (fst (edge_of s t d)) (snd (edge_of s t d)) \<longrightarrow>
      edge_set s' (edge_of s t d) = (\<not> same_at s t d))"
  unfolding edge_ok_def out_ok_INGRID [OF assms(1)] out_ok_edge_of [OF assms(1,3)]
    out_ok_same_at [OF assms] ..

lemma outline_step_keeps:
  assumes wf: "wf_game s" and td: "(t, d) \<in> tile_dirs s"
  shows "out_ok s (snd (outline_step True t (b, s) d)) \<and>
         edge_ok (snd (outline_step True t (b, s) d)) t d \<and>
         (\<forall>(t', d')\<in>tile_dirs s. edge_ok s t' d' \<longrightarrow> edge_ok (snd (outline_step True t (b, s) d)) t' d')"
proof -
  let ?s' = "snd (outline_step True t (b, s) d)"
  note ef = outline_step_effect [OF wf, of t b d]
  have ok: "out_ok s ?s'" using ef by blast
  have t: "t < length (gs_grid s)" "sp_type (gs_grid s ! t) = s_tile" "d \<in> set outline_dirs"
    using td by (simp_all add: tile_dirs_def)
  have a: "edge_ok ?s' t d"
    unfolding out_ok_edge_ok [OF ok wf t(1)] using ef by blast
  have b: "edge_ok ?s' t' d'" if td': "(t', d') \<in> tile_dirs s" and o: "edge_ok s t' d'" for t' d'
  proof -
    have t': "t' < length (gs_grid s)" "sp_type (gs_grid s ! t') = s_tile" "d' \<in> set outline_dirs"
      using td' by (simp_all add: tile_dirs_def)
    show ?thesis
      unfolding out_ok_edge_ok [OF ok wf t'(1)]
    proof
      assume inb: "INGRID s (fst (edge_of s t' d')) (snd (edge_of s t' d'))"
      show "edge_set ?s' (edge_of s t' d') = (\<not> same_at s t' d')"
      proof (cases "edge_of s t' d' = edge_of s t d")
        case True
        then have "same_at s t' d' = same_at s t d"
          using wf t(1) t'(1) t(2) t'(2) t(3) t'(3) by (intro shared_edge_same)
        then show ?thesis using ef inb True by simp
      next
        case False
        then have "edge_set ?s' (edge_of s t' d') = edge_set s (edge_of s t' d')"
          using ef inb by blast
        then show ?thesis using o inb by (simp add: edge_ok_def)
      qed
    qed
  qed
  show ?thesis using ok a b by blast
qed

lemma outline_fold_keeps:
  assumes "t < length (gs_grid s0)" "sp_type (gs_grid s0 ! t) = s_tile"
  shows "wf_game s \<Longrightarrow> out_ok s0 s \<Longrightarrow> set ds \<subseteq> set outline_dirs \<Longrightarrow>
     out_ok s (snd (foldl (outline_step True t) (b, s) ds)) \<and>
     (\<forall>d\<in>set ds. edge_ok (snd (foldl (outline_step True t) (b, s) ds)) t d) \<and>
     (\<forall>(t', d')\<in>tile_dirs s. edge_ok s t' d' \<longrightarrow>
         edge_ok (snd (foldl (outline_step True t) (b, s) ds)) t' d')"
proof (induction ds arbitrary: b s)
  case Nil
  then show ?case by (simp add: out_ok_refl)
next
  case (Cons d ds)
  obtain b1 s1 where r: "outline_step True t (b, s) d = (b1, s1)"
    by (cases "outline_step True t (b, s) d")
  have td: "(t, d) \<in> tile_dirs s"
    using Cons.prems(2,3) assms out_ok_tile_dirs [OF Cons.prems(2)] by (simp add: tile_dirs_def)
  from outline_step_keeps [OF Cons.prems(1) td, of b] r
  have k: "out_ok s s1" "edge_ok s1 t d"
    "\<And>t' d'. (t', d') \<in> tile_dirs s \<Longrightarrow> edge_ok s t' d' \<Longrightarrow> edge_ok s1 t' d'"
    by auto
  have wf1: "wf_game s1" using k(1) by (simp add: out_ok_def)
  have o1: "out_ok s0 s1" using Cons.prems(2) k(1) by (rule out_ok_trans)
  have td1: "tile_dirs s1 = tile_dirs s" using k(1) by (rule out_ok_tile_dirs)
  from Cons.IH [OF wf1 o1, of b1] Cons.prems(3)
  have ih: "out_ok s1 (snd (foldl (outline_step True t) (b1, s1) ds))"
    "\<And>d. d \<in> set ds \<Longrightarrow> edge_ok (snd (foldl (outline_step True t) (b1, s1) ds)) t d"
    "\<And>t' d'. (t', d') \<in> tile_dirs s \<Longrightarrow> edge_ok s1 t' d' \<Longrightarrow>
        edge_ok (snd (foldl (outline_step True t) (b1, s1) ds)) t' d'"
    unfolding td1 by auto
  have "edge_ok (snd (foldl (outline_step True t) (b1, s1) ds)) t d"
    using ih(3) [OF td k(2)] .
  then show ?case using k ih by (auto simp: r intro: out_ok_trans)
qed

definition outline_one :: "game_state \<Rightarrow> nat \<Rightarrow> game_state" where
  "outline_one s i =
     (if sp_type (gs_grid s ! i) = s_tile then snd (outline_tile_fordot s i True) else s)"

lemma outline_all_alt: "outline_all s = foldl outline_one s [0..<nat (gs_sx s * gs_sy s)]"
  by (simp add: outline_all_def outline_one_def [abs_def])

lemma upt_below: "set [0..<n] \<subseteq> {..<n}"
  by auto

lemma outline_one_keeps:
  assumes wf: "wf_game s" and i: "i < length (gs_grid s)"
  shows "out_ok s (outline_one s i) \<and>
     (\<forall>d\<in>set outline_dirs. (i, d) \<in> tile_dirs s \<longrightarrow> edge_ok (outline_one s i) i d) \<and>
     (\<forall>(t', d')\<in>tile_dirs s. edge_ok s t' d' \<longrightarrow> edge_ok (outline_one s i) t' d')"
proof (cases "sp_type (gs_grid s ! i) = s_tile")
  case False
  then show ?thesis using wf by (auto simp: outline_one_def out_ok_refl tile_dirs_def)
next
  case True
  from outline_fold_keeps [OF i True wf out_ok_refl [OF wf], of outline_dirs False] True
  show ?thesis by (simp add: outline_one_def outline_tile_fordot_def)
qed

lemma outline_loop_keeps:
  "wf_game s \<Longrightarrow> set is \<subseteq> {..<length (gs_grid s)} \<Longrightarrow>
   out_ok s (foldl outline_one s is) \<and>
   (\<forall>i\<in>set is. \<forall>d\<in>set outline_dirs. (i, d) \<in> tile_dirs s \<longrightarrow> edge_ok (foldl outline_one s is) i d) \<and>
   (\<forall>(t', d')\<in>tile_dirs s. edge_ok s t' d' \<longrightarrow> edge_ok (foldl outline_one s is) t' d')"
proof (induction "is" arbitrary: s)
  case Nil
  then show ?case by (simp add: out_ok_refl)
next
  case (Cons i "is")
  let ?s1 = "outline_one s i"
  have i: "i < length (gs_grid s)" using Cons.prems(2) by simp
  from outline_one_keeps [OF Cons.prems(1) i]
  have k: "out_ok s ?s1"
    "\<And>d. d \<in> set outline_dirs \<Longrightarrow> (i, d) \<in> tile_dirs s \<Longrightarrow> edge_ok ?s1 i d"
    "\<And>t' d'. (t', d') \<in> tile_dirs s \<Longrightarrow> edge_ok s t' d' \<Longrightarrow> edge_ok ?s1 t' d'"
    by auto
  have wf1: "wf_game ?s1" and len: "length (gs_grid ?s1) = length (gs_grid s)"
    using k(1) by (simp_all add: out_ok_def)
  have td1: "tile_dirs ?s1 = tile_dirs s" using k(1) by (rule out_ok_tile_dirs)
  from Cons.IH [OF wf1] Cons.prems(2) len
  have ih: "out_ok ?s1 (foldl outline_one ?s1 is)"
    "\<And>j d. j \<in> set is \<Longrightarrow> d \<in> set outline_dirs \<Longrightarrow> (j, d) \<in> tile_dirs s \<Longrightarrow>
        edge_ok (foldl outline_one ?s1 is) j d"
    "\<And>t' d'. (t', d') \<in> tile_dirs s \<Longrightarrow> edge_ok ?s1 t' d' \<Longrightarrow>
        edge_ok (foldl outline_one ?s1 is) t' d'"
    unfolding td1 by auto
  show ?case using k ih by (auto intro: out_ok_trans)
qed

lemma outline_all_edge_ok:
  assumes "wf_game s"
  shows "out_ok s (outline_all s)" "\<forall>(t, d)\<in>tile_dirs s. edge_ok (outline_all s) t d"
proof -
  have n: "nat (gs_sx s * gs_sy s) = length (gs_grid s)" using assms by (simp add: wf_game_def)
  from outline_loop_keeps [OF assms upt_below]
  show "out_ok s (outline_all s)" "\<forall>(t, d)\<in>tile_dirs s. edge_ok (outline_all s) t d"
    unfolding outline_all_alt n by (auto simp: tile_dirs_def)
qed

text \<open>Where every edge already has its value, the pass changes nothing.\<close>

lemma outline_fold_id:
  "wf_game s \<Longrightarrow> \<forall>d\<in>set ds. edge_ok s t d \<Longrightarrow> foldl (outline_step True t) (b, s) ds = (b, s)"
proof (induction ds)
  case Nil
  then show ?case by simp
next
  case (Cons d ds)
  then have "outline_step True t (b, s) d = (b, s)"
    using outline_step_effect [of s t b d] by simp
  with Cons show ?case by simp
qed

lemma outline_loop_id:
  "wf_game s \<Longrightarrow> \<forall>(t, d)\<in>tile_dirs s. edge_ok s t d \<Longrightarrow> set is \<subseteq> {..<length (gs_grid s)} \<Longrightarrow>
   foldl outline_one s is = s"
proof (induction "is")
  case Nil
  then show ?case by simp
next
  case (Cons i "is")
  have "outline_one s i = s"
  proof (cases "sp_type (gs_grid s ! i) = s_tile")
    case False
    then show ?thesis by (simp add: outline_one_def)
  next
    case True
    then have "\<forall>d\<in>set outline_dirs. edge_ok s i d"
      using Cons.prems(2,3) by (auto simp: tile_dirs_def)
    then show ?thesis
      using True outline_fold_id [OF Cons.prems(1), of outline_dirs i False]
      by (simp add: outline_one_def outline_tile_fordot_def)
  qed
  with Cons show ?case by simp
qed

text \<open>The value of an edge flag in the words of the spec.\<close>

definition border_expected :: "game_state \<Rightarrow> nat \<Rightarrow> int \<times> int \<Rightarrow> bool" where
  "border_expected s tile dxy =
     (let tx = sp_x (gs_grid s ! tile) + fst dxy + fst dxy;
          ty = sp_y (gs_grid s ! tile) + snd dxy + snd dxy;
          a = has_flag (gs_grid s ! tile) F_TILE_ASSOC;
          a' = has_flag (gs_grid s ! idx s tx ty) F_TILE_ASSOC
      in \<not> INGRID s tx ty \<or> a \<noteq> a' \<or>
         (a \<and> a' \<and> (dotx (gs_grid s ! tile) \<noteq> dotx (gs_grid s ! idx s tx ty) \<or>
                     doty (gs_grid s ! tile) \<noteq> doty (gs_grid s ! idx s tx ty))))"

lemma border_expected_same: "border_expected s t d = (\<not> same_at s t d)"
  unfolding border_expected_def same_at_def Let_def by auto

text \<open>
  C7: the border pass is idempotent.  After \<open>outline_tile_fordot\<close> with \<open>mark = true\<close> has
  run over every tile once, a second pass leaves the board as it is; and after the first
  pass, for every tile and each of its four neighbours (left, right, above, below), the
  edge cell between the two is edge-set iff the neighbour tile does not exist, or exactly
  one of the two is associated, or both are associated to different dots.
\<close>

theorem outline_pass_idempotent:
  assumes "wf_game s"
  shows "outline_all (outline_all s) = outline_all s \<and>
         (\<forall>t<length (gs_grid s). sp_type (gs_grid s ! t) = s_tile \<longrightarrow>
            (\<forall>d\<in>{(- 1, 0), (1, 0), (0, - 1), (0, 1)}.
                INGRID s (fst (edge_of s t d)) (snd (edge_of s t d)) \<longrightarrow>
                edge_set (outline_all s) (edge_of s t d) = border_expected (outline_all s) t d))"
proof
  have four: "set outline_dirs = {(- 1, 0), (1, 0), (0, - 1), (0, 1)}"
    by (simp add: outline_dirs_def)
  note ok = outline_all_edge_ok [OF assms]
  have wf': "wf_game (outline_all s)" and len: "length (gs_grid (outline_all s)) = length (gs_grid s)"
    and sxy: "gs_sx (outline_all s) = gs_sx s" "gs_sy (outline_all s) = gs_sy s"
    using ok(1) by (simp_all add: out_ok_def)
  have "\<forall>(t, d)\<in>tile_dirs (outline_all s). edge_ok (outline_all s) t d"
    using ok(2) out_ok_tile_dirs [OF ok(1)] by simp
  from outline_loop_id [OF wf' this upt_below]
  have "foldl outline_one (outline_all s) [0..<length (gs_grid (outline_all s))] = outline_all s" .
  moreover have "nat (gs_sx s * gs_sy s) = length (gs_grid (outline_all s))"
    using assms len by (simp add: wf_game_def)
  ultimately show "outline_all (outline_all s) = outline_all s"
    unfolding outline_all_alt [of "outline_all s"] sxy by simp
  show "\<forall>t<length (gs_grid s). sp_type (gs_grid s ! t) = s_tile \<longrightarrow>
            (\<forall>d\<in>{(- 1, 0), (1, 0), (0, - 1), (0, 1)}.
                INGRID s (fst (edge_of s t d)) (snd (edge_of s t d)) \<longrightarrow>
                edge_set (outline_all s) (edge_of s t d) = border_expected (outline_all s) t d)"
    unfolding four [symmetric]
  proof (intro allI impI ballI)
    fix t d
    assume t: "t < length (gs_grid s)" "sp_type (gs_grid s ! t) = s_tile" "d \<in> set outline_dirs"
      and inb: "INGRID s (fst (edge_of s t d)) (snd (edge_of s t d))"
    then have "(t, d) \<in> tile_dirs s" by (simp add: tile_dirs_def)
    with ok(2) have "edge_ok (outline_all s) t d" by blast
    then show "edge_set (outline_all s) (edge_of s t d) = border_expected (outline_all s) t d"
      unfolding border_expected_same out_ok_same_at [OF ok(1) assms t(1)]
        out_ok_edge_ok [OF ok(1) assms t(1)] using inb by simp
  qed
qed

text \<open>
  A 2 x 1 board with one dot on its left tile: the propagator associates the left tile, the
  right tile stays unassociated, and the pass sets the edge between the two.
\<close>

definition board2 :: game_state where
  "board2 =
     (case solver_obvious_dot (add_dot (clear_game (blank_game 2 1)) 6) 6 of
        Inr r \<Rightarrow> snd r | Inl e \<Rightarrow> clear_game (blank_game 2 1))"

lemma board2_eval:
  "solver_obvious_dot (add_dot (clear_game (blank_game 2 1)) 6) 6 = Inr (1, board2)"
  "length (gs_grid (clear_game (blank_game 2 1))) = 15"
  "has_flag (gs_grid (add_dot (clear_game (blank_game 2 1)) 6) ! 6) F_DOT"
  "length (gs_grid board2) = 15"
  "sp_type (gs_grid board2 ! 6) = s_tile"
  "edge_of board2 6 (1, 0) = (2, 1)"
  "INGRID board2 2 1"
  "\<not> edge_set board2 (2, 1)"
  "border_expected (outline_all board2) 6 (1, 0)"
  "has_flag (gs_grid board2 ! 6) F_TILE_ASSOC"
  "\<not> has_flag (gs_grid board2 ! 8) F_TILE_ASSOC"
  by code_simp+

lemma board2_wf: "wf_game board2"
proof -
  have "wf_game (blank_game 2 1)" using no_dots_blank_game [of 2 1] by (simp add: no_dots_def)
  then have "wf_game (clear_game (blank_game 2 1))"
    using no_dots_clear_game by (simp add: no_dots_def)
  then have "wf_game (add_dot (clear_game (blank_game 2 1)) 6)"
    unfolding add_dot_alt by (rule wf_upd) (simp add: geom_eq_def)
  moreover have "6 < length (gs_grid (add_dot (clear_game (blank_game 2 1)) 6))"
    by (simp add: add_dot_alt board2_eval)
  ultimately obtain r' s' where
    "solver_obvious_dot (add_dot (clear_game (blank_game 2 1)) 6) 6 = Inr (r', s')"
    "step_ok (add_dot (clear_game (blank_game 2 1)) 6) s'"
    using solver_obvious_dot_ok board2_eval(3) by blast
  then show ?thesis by (simp add: board2_eval step_ok_def)
qed

theorem outline_pass_idempotent_witness:
  "wf_game board2 \<and> \<not> edge_set board2 (2, 1) \<and>
   outline_all (outline_all board2) = outline_all board2 \<and>
   edge_set (outline_all board2) (2, 1)"
proof -
  from outline_pass_idempotent [OF board2_wf]
  have idem: "outline_all (outline_all board2) = outline_all board2"
    and edges: "\<And>t d. t < length (gs_grid board2) \<Longrightarrow>
        sp_type (gs_grid board2 ! t) = s_tile \<Longrightarrow> d \<in> {(- 1, 0), (1, 0), (0, - 1), (0, 1)} \<Longrightarrow>
        INGRID board2 (fst (edge_of board2 t d)) (snd (edge_of board2 t d)) \<Longrightarrow>
        edge_set (outline_all board2) (edge_of board2 t d) =
        border_expected (outline_all board2) t d"
    by blast+
  have "edge_set (outline_all board2) (edge_of board2 6 (1, 0)) =
        border_expected (outline_all board2) 6 (1, 0)"
    by (rule edges) (simp_all add: board2_eval)
  then have "edge_set (outline_all board2) (2, 1)"
    by (simp add: board2_eval)
  with board2_wf idem board2_eval(8) show ?thesis by simp
qed

end
